theory Spec2Isabelle
  imports Main "HOL-Library.Sublist"
begin

section \<open>Port allocator (lib/ports: allocatePortBase)\<close>

text \<open>
  Ports, bases and block sizes are JavaScript numbers holding integers; they are modelled
  as \<open>int\<close>. The only failure of \<open>allocatePortBase\<close> is the thrown
  \<open>Error\<close> whose message carries the start base and the last admissible base.
\<close>

datatype error =
  AllocationExhausted int int
  | ENOENT string

















section \<open>Registry (lib/registry)\<close>

text \<open>
  A registry record, and the registry file: \<open>None\<close> while the file does not exist,
  otherwise the array it holds. \<open>readRegistry\<close> treats a missing file as the empty
  array; every write replaces the whole array.
\<close>

record WorktreeEntry =
  worktreePath :: string
  branch :: string
  portBase :: int
  projectId :: string
  allocatedAt :: string
  portMap :: "(string \<times> string) list"

type_synonym registry_file = "WorktreeEntry list option"

definition readRegistry :: "registry_file \<Rightarrow> WorktreeEntry list" where
  "readRegistry file = (case file of None \<Rightarrow> [] | Some entries \<Rightarrow> entries)"

definition writeRegistry :: "WorktreeEntry list \<Rightarrow> registry_file" where
  "writeRegistry entries = Some entries"

definition registerWorktree :: "WorktreeEntry \<Rightarrow> registry_file \<Rightarrow> registry_file" where
  "registerWorktree entry file =
     (let entries = readRegistry file;
          filtered = filter (\<lambda>e. worktreePath e \<noteq> worktreePath entry) entries
      in writeRegistry (filtered @ [entry]))"

definition unregisterWorktree :: "string \<Rightarrow> registry_file \<Rightarrow> registry_file \<times> bool" where
  "unregisterWorktree path file =
     (let entries = readRegistry file;
          filtered = filter (\<lambda>e. worktreePath e \<noteq> path) entries
      in if length filtered = length entries then (file, False)
         else (writeRegistry filtered, True))"

text \<open>\<open>existsSync\<close> is the state of the disk at the time of the call.\<close>

definition cleanupStaleEntries ::
  "(string \<Rightarrow> bool) \<Rightarrow> registry_file \<Rightarrow> registry_file \<times> WorktreeEntry list" where
  "cleanupStaleEntries existsSync file =
     (let entries = readRegistry file;
          stale = filter (\<lambda>e. \<not> existsSync (worktreePath e)) entries;
          active = filter (\<lambda>e. existsSync (worktreePath e)) entries
      in (if length stale > 0 then writeRegistry active else file, stale))"

definition clearRegistry :: "registry_file \<Rightarrow> registry_file" where
  "clearRegistry file = writeRegistry []"

datatype registry_op =
  Register WorktreeEntry
  | Unregister string
  | Cleanup "string \<Rightarrow> bool"
  | Clear

fun applyOp :: "registry_file \<Rightarrow> registry_op \<Rightarrow> registry_file" where
  "applyOp file (Register entry) = registerWorktree entry file"
| "applyOp file (Unregister path) = fst (unregisterWorktree path file)"
| "applyOp file (Cleanup existsSync) = fst (cleanupStaleEntries existsSync file)"
| "applyOp file Clear = clearRegistry file"

definition runOps :: "registry_file \<Rightarrow> registry_op list \<Rightarrow> registry_file" where
  "runOps file ops = foldl applyOp file ops"

definition uniquePaths :: "registry_file \<Rightarrow> bool" where
  "uniquePaths file = distinct (map worktreePath (readRegistry file))"

lemma uniquePaths_applyOp: "uniquePaths file \<Longrightarrow> uniquePaths (applyOp file op)"
proof (cases op)
  case (Register entry)
  assume "uniquePaths file"
  then show ?thesis unfolding Register
    by (auto simp: uniquePaths_def registerWorktree_def readRegistry_def writeRegistry_def
          distinct_map_filter split: option.splits)
next
  case (Unregister path)
  assume "uniquePaths file"
  then show ?thesis unfolding Unregister
    by (auto simp: uniquePaths_def unregisterWorktree_def readRegistry_def writeRegistry_def
          Let_def distinct_map_filter split: option.splits)
next
  case (Cleanup existsSync)
  assume "uniquePaths file"
  then show ?thesis unfolding Cleanup
    by (auto simp: uniquePaths_def cleanupStaleEntries_def readRegistry_def writeRegistry_def
          Let_def distinct_map_filter split: option.splits)
next
  case Clear
  then show ?thesis
    by (simp add: uniquePaths_def clearRegistry_def readRegistry_def writeRegistry_def)
qed

lemma uniquePaths_runOps: "uniquePaths reg \<Longrightarrow> uniquePaths (runOps reg ops)"
  unfolding runOps_def
  by (induction ops arbitrary: reg) (simp_all add: uniquePaths_applyOp)

text \<open>
  Claim C9. Starting from an empty registry (no file yet, or a file holding the empty
  array), after every sequence of \<open>registerWorktree\<close>, \<open>unregisterWorktree\<close>,
  \<open>cleanupStaleEntries\<close> and \<open>clearRegistry\<close> no two records share a
  \<open>worktreePath\<close>; and \<open>registerWorktree\<close> yields the previous records without those
  of the same \<open>worktreePath\<close>, in their order and unchanged, followed by the new record.
\<close>

theorem registry_worktreePath_unique:
  "distinct (map worktreePath (readRegistry (runOps None ops)))
   \<and> distinct (map worktreePath (readRegistry (runOps (Some []) ops)))
   \<and> readRegistry (registerWorktree entry file)
       = filter (\<lambda>e. worktreePath e \<noteq> worktreePath entry) (readRegistry file) @ [entry]"
proof -
  have "uniquePaths None" "uniquePaths (Some [])"
    by (simp_all add: uniquePaths_def readRegistry_def)
  then have "uniquePaths (runOps None ops)" "uniquePaths (runOps (Some []) ops)"
    by (simp_all add: uniquePaths_runOps)
  then show ?thesis
    by (simp add: uniquePaths_def registerWorktree_def readRegistry_def writeRegistry_def)
qed

theorem registry_worktreePath_unique_witness:
  "map worktreePath (readRegistry (runOps None
      [Register \<lparr>worktreePath = ''/a'', branch = ''main'', portBase = 54321,
                 projectId = ''sbwt-main'', allocatedAt = ''t0'', portMap = []\<rparr>,
       Register \<lparr>worktreePath = ''/b'', branch = ''dev'', portBase = 54421,
                 projectId = ''sbwt-dev'', allocatedAt = ''t1'', portMap = []\<rparr>,
       Register \<lparr>worktreePath = ''/a'', branch = ''main'', portBase = 54521,
                 projectId = ''sbwt-main'', allocatedAt = ''t2'', portMap = []\<rparr>]))
     = [''/b'', ''/a'']
   \<and> distinct (map worktreePath (readRegistry (runOps None
      [Register \<lparr>worktreePath = ''/a'', branch = ''main'', portBase = 54321,
                 projectId = ''sbwt-main'', allocatedAt = ''t0'', portMap = []\<rparr>,
       Register \<lparr>worktreePath = ''/b'', branch = ''dev'', portBase = 54421,
                 projectId = ''sbwt-dev'', allocatedAt = ''t1'', portMap = []\<rparr>,
       Register \<lparr>worktreePath = ''/a'', branch = ''main'', portBase = 54521,
                 projectId = ''sbwt-main'', allocatedAt = ''t2'', portMap = []\<rparr>])))"
proof -
  have run: "map worktreePath (readRegistry (runOps None
      [Register \<lparr>worktreePath = ''/a'', branch = ''main'', portBase = 54321,
                 projectId = ''sbwt-main'', allocatedAt = ''t0'', portMap = []\<rparr>,
       Register \<lparr>worktreePath = ''/b'', branch = ''dev'', portBase = 54421,
                 projectId = ''sbwt-dev'', allocatedAt = ''t1'', portMap = []\<rparr>,
       Register \<lparr>worktreePath = ''/a'', branch = ''main'', portBase = 54521,
                 projectId = ''sbwt-main'', allocatedAt = ''t2'', portMap = []\<rparr>]))
     = [''/b'', ''/a'']"
    by (simp add: runOps_def registerWorktree_def readRegistry_def writeRegistry_def)
  from registry_worktreePath_unique show ?thesis using run by blast
qed

section \<open>Strings and character classes\<close>


definition isDigit :: "char \<Rightarrow> bool" where
  "isDigit c = (of_char (CHR ''0'') \<le> (of_char c :: nat) \<and> (of_char c :: nat) \<le> of_char (CHR ''9''))"

definition isUpper :: "char \<Rightarrow> bool" where
  "isUpper c = (of_char (CHR ''A'') \<le> (of_char c :: nat) \<and> (of_char c :: nat) \<le> of_char (CHR ''Z''))"

definition isLower :: "char \<Rightarrow> bool" where
  "isLower c = (of_char (CHR ''a'') \<le> (of_char c :: nat) \<and> (of_char c :: nat) \<le> of_char (CHR ''z''))"


text \<open>Lower-casing of the ASCII letters; every other code unit is kept.\<close>

definition lowerChar :: "char \<Rightarrow> char" where
  "lowerChar c = (if isUpper c then char_of (of_char c + (32::nat)) else c)"

definition toLowerCase :: "string \<Rightarrow> string" where
  "toLowerCase s = map lowerChar s"



text \<open>\<open>parseInt(digits, 10)\<close> on a string of decimal digits.\<close>

definition digitValue :: "char \<Rightarrow> int" where
  "digitValue c = int (of_char c) - 48"

definition parseInt :: "string \<Rightarrow> int" where
  "parseInt digits = foldl (\<lambda>acc c. acc * 10 + digitValue c) 0 digits"

section \<open>Port extractor (lib/ports: extractPorts)\<close>











section \<open>Identifier deriver (lib/template: deriveProjectId)\<close>

definition PROJECT_ID_PREFIX :: string where
  "PROJECT_ID_PREFIX = ''sbwt-''"

definition MAX_PROJECT_ID_LENGTH :: nat where
  "MAX_PROJECT_ID_LENGTH = 40"

text \<open>
  The sanitising chain \<open>.toLowerCase().replace(/[^a-z0-9-]/g, "-").replace(/-+/g, "-")
  .replace(/^-|-$/g, "")\<close>: every code unit outside \<open>[a-z0-9-]\<close> becomes a hyphen, runs
  of hyphens collapse to one, then one leading and one trailing hyphen are removed.
\<close>

definition allowedChar :: "char \<Rightarrow> bool" where
  "allowedChar c = (isLower c \<or> isDigit c \<or> c = CHR ''-'')"

fun collapseHyphens :: "string \<Rightarrow> string" where
  "collapseHyphens (c # d # cs) =
     (if c = CHR ''-'' \<and> d = CHR ''-'' then collapseHyphens (d # cs)
      else c # collapseHyphens (d # cs))"
| "collapseHyphens cs = cs"

definition stripLeadingHyphen :: "string \<Rightarrow> string" where
  "stripLeadingHyphen s = (case s of [] \<Rightarrow> [] | c # r \<Rightarrow> if c = CHR ''-'' then r else s)"

definition stripTrailingHyphen :: "string \<Rightarrow> string" where
  "stripTrailingHyphen s = (if s \<noteq> [] \<and> last s = CHR ''-'' then butlast s else s)"

definition sanitize :: "string \<Rightarrow> string" where
  "sanitize body =
     stripTrailingHyphen (stripLeadingHyphen (collapseHyphens
       (map (\<lambda>c. if allowedChar c then c else CHR ''-'') (toLowerCase body))))"

text \<open>\<open>s.slice(0, e)\<close>: a negative end counts from the end of the string.\<close>

definition slice0 :: "int \<Rightarrow> string \<Rightarrow> string" where
  "slice0 e s = (if 0 \<le> e then take (nat e) s else take (nat (int (length s) + e)) s)"

text \<open>
  \<open>enforceMaxLength\<close>. The SHA-256 hex digest comes from \<open>node:crypto\<close>; it is the
  parameter \<open>sha256hex\<close>, and the hash is its first 8 characters.
\<close>

definition enforceMaxLength :: "(string \<Rightarrow> string) \<Rightarrow> string \<Rightarrow> string \<Rightarrow> string \<Rightarrow> string" where
  "enforceMaxLength sha256hex fullId rawBody extraSuffix =
     (if length fullId \<le> MAX_PROJECT_ID_LENGTH then fullId
      else (let hash = take 8 (sha256hex rawBody);
                availableForBody =
                  int MAX_PROJECT_ID_LENGTH - int (length PROJECT_ID_PREFIX) - 1
                    - int (length hash) - int (length extraSuffix);
                truncatedBody = stripTrailingHyphen (slice0 availableForBody (sanitize rawBody))
            in PROJECT_ID_PREFIX @ truncatedBody @ ''-'' @ hash @ extraSuffix))"

text \<open>
  The decimal numeral of the loop counter, as the template literal \<open>`-${n}`\<close> prints it.
  (JavaScript prints a number in this form below \<open>10^21\<close>; the counter stays far below
  that for every array the language can hold.)
\<close>

fun decimal :: "nat \<Rightarrow> string" where
  "decimal n =
     (if n < 10 then [char_of (48 + n)]
      else decimal (n div 10) @ [char_of (48 + n mod 10)])"

declare decimal.simps [simp del]

definition suffixOf :: "nat \<Rightarrow> string" where
  "suffixOf n = CHR ''-'' # decimal n"

definition numbered :: "(string \<Rightarrow> string) \<Rightarrow> string \<Rightarrow> string \<Rightarrow> nat \<Rightarrow> string" where
  "numbered sha256hex candidate sanitized n =
     enforceMaxLength sha256hex (candidate @ suffixOf n) sanitized (suffixOf n)"

text \<open>
  The \<open>while (true)\<close> loop of \<open>deriveProjectId\<close>. It is modelled with its counter: the
  result is the returned identifier together with the value of \<open>n\<close> at the exit, so the
  number of iterations performed from \<open>n = 2\<close> is that value minus 1.
\<close>

function deriveLoop ::
  "(string \<Rightarrow> string) \<Rightarrow> string \<Rightarrow> string \<Rightarrow> string list \<Rightarrow> nat \<Rightarrow> string \<times> nat" where
  "deriveLoop sha256hex candidate sanitized existingIds n =
     (if numbered sha256hex candidate sanitized n \<notin> set existingIds
      then (numbered sha256hex candidate sanitized n, n)
      else deriveLoop sha256hex candidate sanitized existingIds (n + 1))"
  by pat_completeness auto

lemma decimal_digits: "c \<in> set (decimal n) \<Longrightarrow> isDigit c"
proof (induction n rule: decimal.induct)
  case (1 n)
  show ?case
  proof (cases "n < 10")
    case True
    with "1.prems" have "c = char_of (48 + n)" by (simp add: decimal.simps)
    with True show ?thesis by (simp add: isDigit_def)
  next
    case False
    with "1.prems" have "c \<in> set (decimal (n div 10)) \<or> c = char_of (48 + n mod 10)"
      by (subst (asm) decimal.simps) auto
    then show ?thesis
    proof
      assume "c \<in> set (decimal (n div 10))"
      with "1.IH" False show ?thesis by simp
    next
      assume c: "c = char_of (48 + n mod 10)"
      have "n mod 10 < 10" by simp
      then have "(48 + n mod 10) mod 256 = 48 + n mod 10" by simp
      with c show ?thesis by (simp add: isDigit_def)
    qed
  qed
qed

lemma decimal_no_hyphen: "CHR ''-'' \<notin> set (decimal n)"
  using decimal_digits[of "CHR ''-''" n] by (auto simp: isDigit_def)

lemma parseInt_snoc: "parseInt (ds @ [c]) = parseInt ds * 10 + digitValue c"
  by (simp add: parseInt_def)

lemma parseInt_decimal: "parseInt (decimal n) = int n"
proof (induction n rule: decimal.induct)
  case (1 n)
  show ?case
  proof (cases "n < 10")
    case True
    then have "(48 + n) mod 256 = 48 + n" by simp
    with True show ?thesis
      by (simp add: decimal.simps parseInt_def digitValue_def)
  next
    case False
    have "n mod 10 < 10" by simp
    then have m: "(48 + n mod 10) mod 256 = 48 + n mod 10" by simp
    from False have "decimal n = decimal (n div 10) @ [char_of (48 + n mod 10)]"
      by (subst decimal.simps) simp
    then have "parseInt (decimal n) = int (n div 10) * 10 + int (n mod 10)"
      using "1.IH" False m by (simp add: parseInt_snoc digitValue_def)
    also have "\<dots> = int n" by presburger
    finally show ?thesis .
  qed
qed

lemma decimal_inj: "decimal m = decimal n \<Longrightarrow> m = n"
proof -
  assume "decimal m = decimal n"
  then have "parseInt (decimal m) = parseInt (decimal n)" by (rule arg_cong)
  then have "int m = int n" by (simp only: parseInt_decimal)
  then show ?thesis by simp
qed

lemma length_decimal: "n < 10 ^ k \<Longrightarrow> 0 < k \<Longrightarrow> length (decimal n) \<le> k"
proof (induction n arbitrary: k rule: decimal.induct)
  case (1 n)
  show ?case
  proof (cases "n < 10")
    case True
    with "1.prems" show ?thesis by (simp add: decimal.simps)
  next
    case False
    then obtain k' where k: "k = Suc k'" using "1.prems" by (cases k) auto
    with False "1.prems" have "0 < k'" by (cases k') auto
    moreover from k "1.prems" have "n div 10 < 10 ^ k'"
      by (simp add: less_mult_imp_div_less mult.commute)
    ultimately have "length (decimal (n div 10)) \<le> k'"
      using "1.IH"[OF False] by simp
    with False k show ?thesis by (subst decimal.simps) simp
  qed
qed

lemma suffix_segment_unique:
  assumes "u @ CHR ''-'' # a = v @ CHR ''-'' # b"
    and "CHR ''-'' \<notin> set a" and "CHR ''-'' \<notin> set b"
  shows "a = b"
proof -
  have seg: "rev (takeWhile (\<lambda>c. c \<noteq> CHR ''-'') (rev (w @ CHR ''-'' # x))) = x"
    if "CHR ''-'' \<notin> set x" for w x
  proof -
    have "takeWhile (\<lambda>c. c \<noteq> CHR ''-'') (rev x @ CHR ''-'' # rev w) = rev x"
      using that by (subst takeWhile_tail) auto
    then show ?thesis by simp
  qed
  from seg[OF assms(2), of u] seg[OF assms(3), of v] assms(1) show ?thesis by simp
qed

lemma enforceMaxLength_suffix:
  "suffix extraSuffix fullId \<Longrightarrow> suffix extraSuffix (enforceMaxLength sha fullId rawBody extraSuffix)"
  by (auto simp: enforceMaxLength_def Let_def suffix_def)

lemma numbered_suffix: "suffix (suffixOf n) (numbered sha candidate sanitized n)"
  unfolding numbered_def by (rule enforceMaxLength_suffix) (simp add: suffix_def)

lemma numbered_inj:
  assumes "numbered sha candidate sanitized m = numbered sha candidate sanitized n"
  shows "m = n"
proof -
  from numbered_suffix[of m sha candidate sanitized] obtain u where
    u: "numbered sha candidate sanitized m = u @ CHR ''-'' # decimal m"
    by (auto simp: suffix_def suffixOf_def)
  from numbered_suffix[of n sha candidate sanitized] obtain v where
    v: "numbered sha candidate sanitized n = v @ CHR ''-'' # decimal n"
    by (auto simp: suffix_def suffixOf_def)
  from u v assms have "u @ CHR ''-'' # decimal m = v @ CHR ''-'' # decimal n" by simp
  then have "decimal m = decimal n"
    by (rule suffix_segment_unique) (rule decimal_no_hyphen)+
  then show ?thesis by (rule decimal_inj)
qed

lemma finite_collisions:
  "finite {m. numbered sha candidate sanitized m \<in> set existingIds}"
proof -
  have "inj (numbered sha candidate sanitized)"
    by (rule injI) (rule numbered_inj)
  then have "finite (numbered sha candidate sanitized -` set existingIds)"
    by (intro finite_vimageI) simp_all
  then show ?thesis by (simp add: vimage_def)
qed

termination deriveLoop
proof (relation "measure (\<lambda>(sha, candidate, sanitized, existingIds, n).
          card {m. n \<le> m \<and> numbered sha candidate sanitized m \<in> set existingIds})")
  show "wf (measure (\<lambda>(sha, candidate, sanitized, existingIds, n).
          card {m. n \<le> m \<and> numbered sha candidate sanitized m \<in> set existingIds}))"
    by simp
next
  fix sha :: "string \<Rightarrow> string" and candidate sanitized :: string
    and existingIds :: "string list" and n :: nat
  assume "\<not> numbered sha candidate sanitized n \<notin> set existingIds"
  then have hit: "numbered sha candidate sanitized n \<in> set existingIds" by simp
  let ?A = "\<lambda>k. {m. k \<le> m \<and> numbered sha candidate sanitized m \<in> set existingIds}"
  have fin: "finite (?A n)"
    by (rule finite_subset[OF _ finite_collisions[of sha candidate sanitized existingIds]]) auto
  have "?A (n + 1) \<subseteq> ?A n" by auto
  moreover have "n \<in> ?A n" using hit by simp
  moreover have "n \<notin> ?A (n + 1)" by simp
  ultimately have "?A (n + 1) \<subset> ?A n" by blast
  with fin have "card (?A (n + 1)) < card (?A n)" by (rule psubset_card_mono)
  then show "((sha, candidate, sanitized, existingIds, n + 1), (sha, candidate, sanitized, existingIds, n))
        \<in> measure (\<lambda>(sha, candidate, sanitized, existingIds, n).
          card {m. n \<le> m \<and> numbered sha candidate sanitized m \<in> set existingIds})"
    by simp
qed

declare deriveLoop.simps [simp del]

text \<open>Step 1 of \<open>deriveProjectId\<close>: \<open>worktreeName ?? branch\<close>.\<close>

definition chooseBody :: "string \<Rightarrow> string option \<Rightarrow> string" where
  "chooseBody branchName worktreeName = (case worktreeName of None \<Rightarrow> branchName | Some w \<Rightarrow> w)"

text \<open>Steps 2 and 3: the sanitised body with the prefix, within the maximal length.\<close>

definition baseCandidate :: "(string \<Rightarrow> string) \<Rightarrow> string \<Rightarrow> string option \<Rightarrow> string" where
  "baseCandidate sha256hex branchName worktreeName =
     (let sanitized = sanitize (chooseBody branchName worktreeName)
      in enforceMaxLength sha256hex (PROJECT_ID_PREFIX @ sanitized) sanitized [])"

definition deriveProjectId ::
  "(string \<Rightarrow> string) \<Rightarrow> string \<Rightarrow> string option \<Rightarrow> string list \<Rightarrow> string" where
  "deriveProjectId sha256hex branchName worktreeName existingIds =
     (let sanitized = sanitize (chooseBody branchName worktreeName);
          candidate = baseCandidate sha256hex branchName worktreeName
      in if candidate \<notin> set existingIds then candidate
         else fst (deriveLoop sha256hex candidate sanitized existingIds 2))"

lemma deriveLoop_exit:
  "deriveLoop sha candidate sanitized existingIds n = (r, k) \<Longrightarrow>
     n \<le> k \<and> r = numbered sha candidate sanitized k \<and> r \<notin> set existingIds
     \<and> (\<forall>m. n \<le> m \<and> m < k \<longrightarrow> numbered sha candidate sanitized m \<in> set existingIds)"
proof (induction sha candidate sanitized existingIds n rule: deriveLoop.induct)
  case (1 sha candidate sanitized existingIds n)
  show ?case
  proof (cases "numbered sha candidate sanitized n \<in> set existingIds")
    case False
    with "1.prems" have "r = numbered sha candidate sanitized n" "k = n"
      by (subst (asm) deriveLoop.simps, simp)+
    with False show ?thesis by auto
  next
    case True
    with "1.prems" have "deriveLoop sha candidate sanitized existingIds (n + 1) = (r, k)"
      by (subst (asm) deriveLoop.simps) simp
    with "1.IH" True have "n + 1 \<le> k \<and> r = numbered sha candidate sanitized k
      \<and> r \<notin> set existingIds
      \<and> (\<forall>m. n + 1 \<le> m \<and> m < k \<longrightarrow> numbered sha candidate sanitized m \<in> set existingIds)"
      by blast
    then have ih: "n + 1 \<le> k" "r = numbered sha candidate sanitized k"
      "r \<notin> set existingIds"
      "\<forall>m. n + 1 \<le> m \<and> m < k \<longrightarrow> numbered sha candidate sanitized m \<in> set existingIds"
      by blast+
    have "numbered sha candidate sanitized m \<in> set existingIds" if "n \<le> m" "m < k" for m
    proof (cases "m = n")
      case True
      with \<open>numbered sha candidate sanitized n \<in> set existingIds\<close> show ?thesis by simp
    next
      case False
      with that have "n + 1 \<le> m \<and> m < k" by simp
      with ih(4) show ?thesis by blast
    qed
    with ih show ?thesis by simp
  qed
qed

lemma deriveLoop_iterations:
  assumes "deriveLoop sha candidate sanitized existingIds n = (r, k)"
  shows "k - n \<le> length existingIds"
proof -
  from deriveLoop_exit[OF assms]
  have sub: "numbered sha candidate sanitized ` {n ..< k} \<subseteq> set existingIds" by auto
  have "inj_on (numbered sha candidate sanitized) {n ..< k}"
    by (rule inj_onI) (rule numbered_inj)
  then have "card (numbered sha candidate sanitized ` {n ..< k}) = k - n"
    by (simp add: card_image)
  moreover from sub have "card (numbered sha candidate sanitized ` {n ..< k}) \<le> card (set existingIds)"
    by (intro card_mono) simp_all
  moreover have "card (set existingIds) \<le> length existingIds" by (rule card_length)
  ultimately show ?thesis by linarith
qed

lemma length_stripTrailingHyphen: "length (stripTrailingHyphen s) \<le> length s"
  by (simp add: stripTrailingHyphen_def)

lemma length_slice0: "0 \<le> e \<Longrightarrow> int (length (slice0 e s)) \<le> e"
  by (simp add: slice0_def)

lemma enforceMaxLength_length:
  assumes "length extraSuffix \<le> 26"
  shows "length (enforceMaxLength sha fullId rawBody extraSuffix) \<le> 40"
proof (cases "length fullId \<le> MAX_PROJECT_ID_LENGTH")
  case True
  then show ?thesis by (simp add: enforceMaxLength_def MAX_PROJECT_ID_LENGTH_def)
next
  case False
  define hash where "hash = take 8 (sha rawBody)"
  define avail where "avail = int MAX_PROJECT_ID_LENGTH - int (length PROJECT_ID_PREFIX) - 1
                    - int (length hash) - int (length extraSuffix)"
  define tb where "tb = stripTrailingHyphen (slice0 avail (sanitize rawBody))"
  have hl: "length hash \<le> 8" by (simp add: hash_def)
  with assms have a0: "0 \<le> avail"
    by (simp add: avail_def MAX_PROJECT_ID_LENGTH_def PROJECT_ID_PREFIX_def)
  have "int (length tb) \<le> int (length (slice0 avail (sanitize rawBody)))"
    unfolding tb_def using length_stripTrailingHyphen by simp
  also have "\<dots> \<le> avail" using a0 by (rule length_slice0)
  finally have tl: "int (length tb) \<le> avail" .
  have eq: "enforceMaxLength sha fullId rawBody extraSuffix
            = PROJECT_ID_PREFIX @ tb @ ''-'' @ hash @ extraSuffix"
    using False by (simp add: enforceMaxLength_def Let_def hash_def avail_def tb_def)
  have "int (length (PROJECT_ID_PREFIX @ tb @ ''-'' @ hash @ extraSuffix))
        = 5 + int (length tb) + 1 + int (length hash) + int (length extraSuffix)"
    by (simp add: PROJECT_ID_PREFIX_def)
  also have "\<dots> \<le> 40" using tl
    by (simp add: avail_def MAX_PROJECT_ID_LENGTH_def PROJECT_ID_PREFIX_def)
  finally show ?thesis unfolding eq by simp
qed

lemma enforceMaxLength_prefix:
  "prefix PROJECT_ID_PREFIX fullId \<Longrightarrow>
     prefix PROJECT_ID_PREFIX (enforceMaxLength sha fullId rawBody extraSuffix)"
  by (simp add: enforceMaxLength_def Let_def)

lemma baseCandidate_prefix: "prefix PROJECT_ID_PREFIX (baseCandidate sha b w)"
  unfolding baseCandidate_def Let_def by (rule enforceMaxLength_prefix) simp

lemma baseCandidate_length: "length (baseCandidate sha b w) \<le> 40"
  unfolding baseCandidate_def Let_def by (rule enforceMaxLength_length) simp

lemma numbered_prefix:
  "prefix PROJECT_ID_PREFIX candidate \<Longrightarrow> prefix PROJECT_ID_PREFIX (numbered sha candidate sanitized n)"
  unfolding numbered_def by (rule enforceMaxLength_prefix) (auto simp: prefix_def)

lemma numbered_length:
  assumes "n < 10 ^ 25"
  shows "length (numbered sha candidate sanitized n) \<le> 40"
proof -
  from assms have "length (decimal n) \<le> 25" by (rule length_decimal) simp
  then have "length (suffixOf n) \<le> 26" by (simp add: suffixOf_def)
  then show ?thesis unfolding numbered_def by (rule enforceMaxLength_length)
qed

text \<open>
  Claim C4. For every branch name, optional worktree name and list of existing
  identifiers (a JavaScript array, so of fewer than \<open>2^32\<close> elements), the string returned
  by \<open>deriveProjectId\<close> has length at most 40 and begins with \<open>sbwt-\<close>. It is the base
  candidate when that is not among the existing identifiers; otherwise it is the numbered
  variant for the least \<open>n \<ge> 2\<close> whose variant is not taken: it ends with \<open>-n\<close>, every
  variant \<open>-2\<close>, ..., \<open>-(n-1)\<close> is among the existing identifiers, and the result itself is
  not.
\<close>

theorem deriveProjectId_length_prefix_suffix:
  assumes "length existingIds < 2 ^ 32"
  shows "length (deriveProjectId sha branchName worktreeName existingIds) \<le> 40
     \<and> prefix ''sbwt-'' (deriveProjectId sha branchName worktreeName existingIds)
     \<and> deriveProjectId sha branchName worktreeName existingIds \<notin> set existingIds
     \<and> (baseCandidate sha branchName worktreeName \<notin> set existingIds \<longrightarrow>
          deriveProjectId sha branchName worktreeName existingIds
            = baseCandidate sha branchName worktreeName)
     \<and> (baseCandidate sha branchName worktreeName \<in> set existingIds \<longrightarrow>
          (\<exists>n\<ge>2. deriveProjectId sha branchName worktreeName existingIds
                    = numbered sha (baseCandidate sha branchName worktreeName)
                        (sanitize (chooseBody branchName worktreeName)) n
             \<and> suffix (CHR ''-'' # decimal n)
                  (deriveProjectId sha branchName worktreeName existingIds)
             \<and> (\<forall>m. 2 \<le> m \<and> m < n \<longrightarrow>
                    numbered sha (baseCandidate sha branchName worktreeName)
                      (sanitize (chooseBody branchName worktreeName)) m \<in> set existingIds)))"
proof (cases "baseCandidate sha branchName worktreeName \<in> set existingIds")
  case False
  then have "deriveProjectId sha branchName worktreeName existingIds
             = baseCandidate sha branchName worktreeName"
    by (simp add: deriveProjectId_def Let_def)
  with False baseCandidate_length[of sha branchName worktreeName]
    baseCandidate_prefix[of sha branchName worktreeName]
  show ?thesis by (simp add: PROJECT_ID_PREFIX_def)
next
  case True
  let ?cand = "baseCandidate sha branchName worktreeName"
  let ?san = "sanitize (chooseBody branchName worktreeName)"
  obtain r n where loop: "deriveLoop sha ?cand ?san existingIds 2 = (r, n)"
    by (cases "deriveLoop sha ?cand ?san existingIds 2") blast
  with True have res: "deriveProjectId sha branchName worktreeName existingIds = r"
    by (simp add: deriveProjectId_def Let_def)
  from deriveLoop_exit[OF loop] have ex: "2 \<le> n" "r = numbered sha ?cand ?san n"
    "r \<notin> set existingIds"
    "\<forall>m. 2 \<le> m \<and> m < n \<longrightarrow> numbered sha ?cand ?san m \<in> set existingIds"
    by blast+
  from deriveLoop_iterations[OF loop] assms have "n < 2 ^ 32 + 2" by simp
  also have "\<dots> < (10::nat) ^ 25" by simp
  finally have "length r \<le> 40" unfolding ex(2) by (rule numbered_length)
  moreover have "prefix ''sbwt-'' r"
    unfolding ex(2) using numbered_prefix[OF baseCandidate_prefix]
    by (simp add: PROJECT_ID_PREFIX_def)
  moreover have "suffix (CHR ''-'' # decimal n) r"
    unfolding ex(2) using numbered_suffix by (simp add: suffixOf_def)
  ultimately show ?thesis using True res ex(1,3,4) ex(2)[symmetric]
    by (intro conjI impI exI[of _ n]) simp_all
qed

theorem deriveProjectId_length_prefix_suffix_witness:
  "length [''sbwt-main'', ''sbwt-main-2''] < (2::nat) ^ 32
   \<and> deriveProjectId (\<lambda>s. ''0123456789abcdef0123456789abcdef0123456789abcdef0123456789abcdef'')
        ''main'' None [''sbwt-main'', ''sbwt-main-2''] = ''sbwt-main-3''
   \<and> length (deriveProjectId (\<lambda>s. ''0123456789abcdef0123456789abcdef0123456789abcdef0123456789abcdef'')
        ''main'' None [''sbwt-main'', ''sbwt-main-2'']) \<le> 40
   \<and> prefix ''sbwt-'' (deriveProjectId (\<lambda>s. ''0123456789abcdef0123456789abcdef0123456789abcdef0123456789abcdef'')
        ''main'' None [''sbwt-main'', ''sbwt-main-2''])
   \<and> deriveProjectId (\<lambda>s. ''0123456789abcdef0123456789abcdef0123456789abcdef0123456789abcdef'')
        ''main'' None [''sbwt-main'', ''sbwt-main-2''] \<notin> set [''sbwt-main'', ''sbwt-main-2'']"
proof -
  have h: "length [''sbwt-main'', ''sbwt-main-2''] < (2::nat) ^ 32" by simp
  have run: "deriveProjectId (\<lambda>s. ''0123456789abcdef0123456789abcdef0123456789abcdef0123456789abcdef'')
        ''main'' None [''sbwt-main'', ''sbwt-main-2''] = ''sbwt-main-3''"
    by code_simp
  note t = deriveProjectId_length_prefix_suffix[OF h,
      of "\<lambda>s. ''0123456789abcdef0123456789abcdef0123456789abcdef0123456789abcdef''" "''main''" None]
  show ?thesis
    apply (intro conjI)
        apply (rule h)
       apply (rule run)
      apply (rule t[THEN conjunct1])
     apply (rule t[THEN conjunct2, THEN conjunct1])
    apply (rule t[THEN conjunct2, THEN conjunct2, THEN conjunct1])
    done
qed

text \<open>
  Claim C10. \<open>deriveProjectId\<close> terminates on every input (the loop function is total:
  its termination is proved from the facts stated here). Each numbered candidate ends
  with its own suffix \<open>-n\<close>, so the candidates of distinct \<open>n\<close> are distinct, and the
  collision loop, started at \<open>n = 2\<close>, exits with a counter \<open>n\<close> such that the number of
  iterations \<open>n - 1\<close> is at most the number of existing identifiers plus one.
\<close>

theorem deriveProjectId_loop_terminates:
  "(\<forall>n. suffix (CHR ''-'' # decimal n) (numbered sha candidate sanitized n))
   \<and> inj (numbered sha candidate sanitized)
   \<and> (\<exists>r n. deriveLoop sha candidate sanitized existingIds 2 = (r, n)
         \<and> 2 \<le> n \<and> n - 1 \<le> length existingIds + 1
         \<and> r = numbered sha candidate sanitized n)
   \<and> (\<exists>r n. deriveProjectId sha branchName worktreeName existingIds = r
         \<and> (r = baseCandidate sha branchName worktreeName
            \<or> (deriveLoop sha (baseCandidate sha branchName worktreeName)
                  (sanitize (chooseBody branchName worktreeName)) existingIds 2 = (r, n)
                \<and> n - 1 \<le> length existingIds + 1)))"
proof -
  have a: "\<forall>n. suffix (CHR ''-'' # decimal n) (numbered sha candidate sanitized n)"
    using numbered_suffix by (simp add: suffixOf_def)
  have b: "inj (numbered sha candidate sanitized)"
    by (rule injI) (rule numbered_inj)
  have c: "\<exists>r n. deriveLoop sha cand san existingIds 2 = (r, n)
         \<and> 2 \<le> n \<and> n - 1 \<le> length existingIds + 1
         \<and> r = numbered sha cand san n" for cand san
  proof -
    obtain r n where loop: "deriveLoop sha cand san existingIds 2 = (r, n)"
      by (cases "deriveLoop sha cand san existingIds 2") blast
    from deriveLoop_exit[OF loop] have "2 \<le> n" "r = numbered sha cand san n" by blast+
    moreover from deriveLoop_iterations[OF loop] have "n - 1 \<le> length existingIds + 1" by simp
    ultimately show ?thesis using loop by blast
  qed
  have d: "\<exists>r n. deriveProjectId sha branchName worktreeName existingIds = r
         \<and> (r = baseCandidate sha branchName worktreeName
            \<or> (deriveLoop sha (baseCandidate sha branchName worktreeName)
                  (sanitize (chooseBody branchName worktreeName)) existingIds 2 = (r, n)
                \<and> n - 1 \<le> length existingIds + 1))"
  proof (cases "baseCandidate sha branchName worktreeName \<in> set existingIds")
    case False
    then show ?thesis by (simp add: deriveProjectId_def Let_def)
  next
    case True
    from c[of "baseCandidate sha branchName worktreeName"
             "sanitize (chooseBody branchName worktreeName)"]
    obtain r n where "deriveLoop sha (baseCandidate sha branchName worktreeName)
                  (sanitize (chooseBody branchName worktreeName)) existingIds 2 = (r, n)"
      "n - 1 \<le> length existingIds + 1" by blast
    with True show ?thesis by (simp add: deriveProjectId_def Let_def)
  qed
  from a b c[of candidate sanitized] d show ?thesis by (intro conjI)
qed

theorem deriveProjectId_loop_terminates_witness:
  "deriveLoop (\<lambda>s. ''0123456789abcdef0123456789abcdef0123456789abcdef0123456789abcdef'')
      ''sbwt-dev'' ''dev'' [''sbwt-dev'', ''sbwt-dev-2''] 2 = (''sbwt-dev-3'', 3)
   \<and> (3::nat) - 1 \<le> length [''sbwt-dev'', ''sbwt-dev-2''] + 1
   \<and> suffix (CHR ''-'' # decimal 3)
        (numbered (\<lambda>s. ''0123456789abcdef0123456789abcdef0123456789abcdef0123456789abcdef'')
           ''sbwt-dev'' ''dev'' 3)"
proof -
  have run: "deriveLoop (\<lambda>s. ''0123456789abcdef0123456789abcdef0123456789abcdef0123456789abcdef'')
      ''sbwt-dev'' ''dev'' [''sbwt-dev'', ''sbwt-dev-2''] 2 = (''sbwt-dev-3'', 3)"
    by code_simp
  note t = deriveProjectId_loop_terminates[
      of "\<lambda>s. ''0123456789abcdef0123456789abcdef0123456789abcdef0123456789abcdef''"
         "''sbwt-dev''" "''dev''" "[''sbwt-dev'', ''sbwt-dev-2'']" "''dev''" None]
  from t have s: "suffix (CHR ''-'' # decimal 3)
        (numbered (\<lambda>s. ''0123456789abcdef0123456789abcdef0123456789abcdef0123456789abcdef'')
           ''sbwt-dev'' ''dev'' 3)" by blast
  from t obtain r n where
    "deriveLoop (\<lambda>s. ''0123456789abcdef0123456789abcdef0123456789abcdef0123456789abcdef'')
      ''sbwt-dev'' ''dev'' [''sbwt-dev'', ''sbwt-dev-2''] 2 = (r, n)"
    "n - 1 \<le> length [''sbwt-dev'', ''sbwt-dev-2''] + 1" by blast
  with run have b: "(3::nat) - 1 \<le> length [''sbwt-dev'', ''sbwt-dev-2''] + 1" by simp
  show ?thesis
    apply (intro conjI)
      apply (rule run)
     apply (rule b)
    apply (rule s)
    done
qed

section \<open>Environment file rewriter (lib/env)\<close>

definition REPLACEABLE_HOSTS :: "string list" where
  "REPLACEABLE_HOSTS = [''localhost'', ''127.0.0.1'', ''0.0.0.0'', ''host.docker.internal'']"

definition ENV_BACKUP_SUFFIX :: string where
  "ENV_BACKUP_SUFFIX = ''.sb-backup''"

text \<open>
  \<open>String.prototype.replaceAll\<close> with a string pattern: the occurrences are found from
  left to right without overlap, and each is replaced. For the empty pattern the
  replacement is inserted before every code unit and at the end. The replacement text is
  taken literally: the texts substituted here are a host, a colon and a port numeral, and
  hold no \<open>$\<close>.
\<close>

function replaceAll :: "string \<Rightarrow> string \<Rightarrow> string \<Rightarrow> string" where
  "replaceAll pat rep s =
     (if pat = [] then rep @ concat (map (\<lambda>c. c # rep) s)
      else if s = [] then []
      else if prefix pat s then rep @ replaceAll pat rep (drop (length pat) s)
      else hd s # replaceAll pat rep (tl s))"
  by pat_completeness auto
termination
  by (relation "measure (\<lambda>(pat, rep, s). length s)") auto

declare replaceAll.simps [simp del]

text \<open>
  A port map is given by \<open>Object.entries(portMap)\<close>: its pairs of old and new port, in
  the order of enumeration.
\<close>

type_synonym port_map = "(string \<times> string) list"

definition replaceHosts :: "string \<Rightarrow> string \<Rightarrow> string \<Rightarrow> string" where
  "replaceHosts oldPort newPort content =
     foldl (\<lambda>result host. replaceAll (host @ '':'' @ oldPort) (host @ '':'' @ newPort) result)
       content REPLACEABLE_HOSTS"

definition replacePortsInEnvContent :: "string \<Rightarrow> port_map \<Rightarrow> string" where
  "replacePortsInEnvContent content pm =
     foldl (\<lambda>result (oldPort, newPort).
              if oldPort = newPort then result else replaceHosts oldPort newPort result)
       content pm"

text \<open>
  The file system: a partial map from paths to file contents. The list of files found by
  \<open>discoverEnvFiles\<close> (the glob library) is a parameter of the two operations; the glob
  ignores backup files and the result is deduplicated. \<open>relative\<close> stands for
  \<open>relative(projectRoot, .)\<close>.
\<close>

type_synonym file_system = "string \<rightharpoonup> string"

text \<open>\<open>backupEnvFile\<close>: \<open>copyFile(envPath, envPath + ENV_BACKUP_SUFFIX)\<close>.\<close>

definition backupEnvFile :: "file_system \<Rightarrow> string \<Rightarrow> file_system" where
  "backupEnvFile fs envPath = fs(envPath @ ENV_BACKUP_SUFFIX := fs envPath)"

definition restoreEnvFile :: "file_system \<Rightarrow> string \<Rightarrow> file_system \<times> bool" where
  "restoreEnvFile fs envPath =
     (let backupPath = envPath @ ENV_BACKUP_SUFFIX in
      case fs backupPath of
        None \<Rightarrow> (fs, False)
      | Some saved \<Rightarrow> ((fs(envPath \<mapsto> saved))(backupPath := None), True))"

fun updateEnvFiles ::
  "(string \<Rightarrow> string) \<Rightarrow> file_system \<Rightarrow> port_map \<Rightarrow> string list
     \<Rightarrow> error + (file_system \<times> string list)" where
  "updateEnvFiles relative fs pm [] = Inr (fs, [])"
| "updateEnvFiles relative fs pm (filePath # envFiles) =
     (case fs filePath of
        None \<Rightarrow> Inl (ENOENT filePath)
      | Some content \<Rightarrow>
          (let updated = replacePortsInEnvContent content pm in
           if updated \<noteq> content then
             (case updateEnvFiles relative ((backupEnvFile fs filePath)(filePath \<mapsto> updated))
                     pm envFiles of
                Inl e \<Rightarrow> Inl e
              | Inr (fs', modified) \<Rightarrow> Inr (fs', relative filePath # modified))
           else updateEnvFiles relative fs pm envFiles))"

fun restoreAllEnvFiles ::
  "(string \<Rightarrow> string) \<Rightarrow> file_system \<Rightarrow> string list \<Rightarrow> file_system \<times> string list" where
  "restoreAllEnvFiles relative fs [] = (fs, [])"
| "restoreAllEnvFiles relative fs (filePath # envFiles) =
     (case restoreEnvFile fs filePath of
        (fs1, didRestore) \<Rightarrow>
          (case restoreAllEnvFiles relative fs1 envFiles of
             (fs2, restored) \<Rightarrow>
               (fs2, if didRestore then relative filePath # restored else restored)))"

text \<open>
  Claim C8. The scenario of the claim holds: with the port map \<open>{"54321": "60000"}\<close> the
  content holding \<open>SUPABASE_URL=http://localhost:54321/rest\<close> and \<open>RANDOM_NUMBER=54321\<close>
  has only the host-prefixed port rewritten. The general statement does not: in the
  content \<open>A=localhost:54321.0.0.0:54321\<close> the second \<open>54321\<close> follows \<open>1.0.0.0:\<close>, not a
  recognized host and a colon, and is rewritten all the same, because the pass for
  \<open>localhost\<close> leaves \<open>60000.0.0.0:54321\<close>, in which the later pass for \<open>0.0.0.0\<close>
  finds its pattern.
\<close>

theorem replacePortsInEnvContent_rewrites_unprefixed_port:
  "replacePortsInEnvContent
      ''SUPABASE_URL=http://localhost:54321/rest
RANDOM_NUMBER=54321'' [(''54321'', ''60000'')]
    = ''SUPABASE_URL=http://localhost:60000/rest
RANDOM_NUMBER=54321''
   \<and> replacePortsInEnvContent ''A=localhost:54321.0.0.0:54321'' [(''54321'', ''60000'')]
       = ''A=localhost:60000.0.0.0:60000''"
  by code_simp

text \<open>Whether \<open>updateEnvFiles\<close> rewrites the file at a path.\<close>

definition changedBy :: "file_system \<Rightarrow> port_map \<Rightarrow> string \<Rightarrow> bool" where
  "changedBy fs pm filePath =
     (case fs filePath of
        None \<Rightarrow> False
      | Some content \<Rightarrow> replacePortsInEnvContent content pm \<noteq> content)"

definition hasBackup :: "file_system \<Rightarrow> string \<Rightarrow> bool" where
  "hasBackup fs filePath = (fs (filePath @ ENV_BACKUP_SUFFIX) \<noteq> None)"

definition discovered :: "file_system \<Rightarrow> string list \<Rightarrow> bool" where
  "discovered fs envFiles =
     (distinct envFiles
      \<and> list_all (\<lambda>p. \<not> suffix ENV_BACKUP_SUFFIX p \<and> fs p \<noteq> None) envFiles)"

lemma backup_path_neq: "\<not> suffix ENV_BACKUP_SUFFIX q \<Longrightarrow> p @ ENV_BACKUP_SUFFIX \<noteq> q"
  by (auto simp: suffix_def)

lemma updateEnvFiles_effect:
  assumes "discovered fs envFiles"
  shows "\<exists>fs1. updateEnvFiles relative fs pm envFiles
                  = Inr (fs1, map relative (filter (changedBy fs pm) envFiles))
           \<and> (\<forall>p \<in> set envFiles. changedBy fs pm p \<longrightarrow>
                  fs1 p = map_option (\<lambda>c. replacePortsInEnvContent c pm) (fs p)
                  \<and> fs1 (p @ ENV_BACKUP_SUFFIX) = fs p)
           \<and> (\<forall>p \<in> set envFiles. \<not> changedBy fs pm p \<longrightarrow>
                  fs1 p = fs p \<and> fs1 (p @ ENV_BACKUP_SUFFIX) = fs (p @ ENV_BACKUP_SUFFIX))
           \<and> (\<forall>q. q \<notin> set envFiles \<and> (\<forall>p \<in> set envFiles. q \<noteq> p @ ENV_BACKUP_SUFFIX)
                  \<longrightarrow> fs1 q = fs q)"
  using assms
proof (induction envFiles arbitrary: fs)
  case Nil
  then show ?case by simp
next
  case (Cons f rest)
  from Cons.prems obtain content where content: "fs f = Some content"
    by (auto simp: discovered_def)
  from Cons.prems have nosuf: "\<not> suffix ENV_BACKUP_SUFFIX f"
    and rest_nosuf: "\<forall>p \<in> set rest. \<not> suffix ENV_BACKUP_SUFFIX p"
    and fresh: "f \<notin> set rest" and drest: "distinct rest"
    and rest_ex: "\<forall>p \<in> set rest. fs p \<noteq> None"
    by (auto simp: discovered_def list_all_iff)
  show ?case
  proof (cases "changedBy fs pm f")
    case False
    with content have same: "replacePortsInEnvContent content pm = content"
      by (simp add: changedBy_def)
    from Cons.prems have "discovered fs rest" by (auto simp: discovered_def)
    from Cons.IH[OF this] obtain fs1 where ih:
      "updateEnvFiles relative fs pm rest = Inr (fs1, map relative (filter (changedBy fs pm) rest))"
      "\<forall>p \<in> set rest. changedBy fs pm p \<longrightarrow>
          fs1 p = map_option (\<lambda>c. replacePortsInEnvContent c pm) (fs p)
          \<and> fs1 (p @ ENV_BACKUP_SUFFIX) = fs p"
      "\<forall>p \<in> set rest. \<not> changedBy fs pm p \<longrightarrow>
          fs1 p = fs p \<and> fs1 (p @ ENV_BACKUP_SUFFIX) = fs (p @ ENV_BACKUP_SUFFIX)"
      "\<forall>q. q \<notin> set rest \<and> (\<forall>p \<in> set rest. q \<noteq> p @ ENV_BACKUP_SUFFIX) \<longrightarrow> fs1 q = fs q"
      by blast
    have f1: "fs1 f = fs f"
      using ih(4) fresh rest_nosuf nosuf by (metis backup_path_neq)
    have f2: "fs1 (f @ ENV_BACKUP_SUFFIX) = fs (f @ ENV_BACKUP_SUFFIX)"
    proof -
      have "f @ ENV_BACKUP_SUFFIX \<notin> set rest"
        using rest_nosuf by (auto simp: suffix_def)
      moreover have "\<forall>p \<in> set rest. f @ ENV_BACKUP_SUFFIX \<noteq> p @ ENV_BACKUP_SUFFIX"
        using fresh by auto
      ultimately show ?thesis using ih(4) by blast
    qed
    have run: "updateEnvFiles relative fs pm (f # rest)
               = Inr (fs1, map relative (filter (changedBy fs pm) (f # rest)))"
      using content same False ih(1) by simp
    show ?thesis
      apply (rule exI[of _ fs1])
      apply (intro conjI)
         apply (rule run)
      using ih(2) False apply simp
      using ih(3) f1 f2 apply simp
      using ih(4) apply simp
      done
  next
    case True
    with content have diff: "replacePortsInEnvContent content pm \<noteq> content"
      by (simp add: changedBy_def)
    define fsA where "fsA = (backupEnvFile fs f)(f \<mapsto> replacePortsInEnvContent content pm)"
    have fsA_other: "fsA q = fs q" if "q \<noteq> f" "q \<noteq> f @ ENV_BACKUP_SUFFIX" for q
      using that by (simp add: fsA_def backupEnvFile_def)
    have fsA_f: "fsA f = Some (replacePortsInEnvContent content pm)"
      by (simp add: fsA_def)
    have fsA_b: "fsA (f @ ENV_BACKUP_SUFFIX) = fs f"
      using backup_path_neq[OF nosuf, of f] by (simp add: fsA_def backupEnvFile_def)
    have rest_same: "fsA p = fs p" if "p \<in> set rest" for p
      using that fresh rest_nosuf by (intro fsA_other) (auto simp: suffix_def)
    have rest_bsame: "fsA (p @ ENV_BACKUP_SUFFIX) = fs (p @ ENV_BACKUP_SUFFIX)" if "p \<in> set rest" for p
      using that fresh nosuf by (intro fsA_other) (auto simp: suffix_def)
    have ch_same: "changedBy fsA pm p = changedBy fs pm p" if "p \<in> set rest" for p
      using rest_same[OF that] by (simp add: changedBy_def)
    have "discovered fsA rest"
      using drest rest_nosuf rest_ex rest_same by (auto simp: discovered_def list_all_iff)
    from Cons.IH[OF this] obtain fs1 where ih:
      "updateEnvFiles relative fsA pm rest = Inr (fs1, map relative (filter (changedBy fsA pm) rest))"
      "\<forall>p \<in> set rest. changedBy fsA pm p \<longrightarrow>
          fs1 p = map_option (\<lambda>c. replacePortsInEnvContent c pm) (fsA p)
          \<and> fs1 (p @ ENV_BACKUP_SUFFIX) = fsA p"
      "\<forall>p \<in> set rest. \<not> changedBy fsA pm p \<longrightarrow>
          fs1 p = fsA p \<and> fs1 (p @ ENV_BACKUP_SUFFIX) = fsA (p @ ENV_BACKUP_SUFFIX)"
      "\<forall>q. q \<notin> set rest \<and> (\<forall>p \<in> set rest. q \<noteq> p @ ENV_BACKUP_SUFFIX) \<longrightarrow> fs1 q = fsA q"
      by blast
    have filt: "filter (changedBy fsA pm) rest = filter (changedBy fs pm) rest"
      using ch_same by (intro filter_cong) simp_all
    have f1: "fs1 f = Some (replacePortsInEnvContent content pm)"
    proof -
      have "\<forall>p \<in> set rest. f \<noteq> p @ ENV_BACKUP_SUFFIX" using nosuf by (auto simp: suffix_def)
      with ih(4) fresh have "fs1 f = fsA f" by blast
      with fsA_f show ?thesis by simp
    qed
    have f2: "fs1 (f @ ENV_BACKUP_SUFFIX) = fs f"
    proof -
      have "f @ ENV_BACKUP_SUFFIX \<notin> set rest"
        using rest_nosuf by (auto simp: suffix_def)
      moreover have "\<forall>p \<in> set rest. f @ ENV_BACKUP_SUFFIX \<noteq> p @ ENV_BACKUP_SUFFIX"
        using fresh by auto
      ultimately have "fs1 (f @ ENV_BACKUP_SUFFIX) = fsA (f @ ENV_BACKUP_SUFFIX)"
        using ih(4) by blast
      with fsA_b show ?thesis by simp
    qed
    have run: "updateEnvFiles relative fs pm (f # rest)
               = Inr (fs1, map relative (filter (changedBy fs pm) (f # rest)))"
      using content diff True ih(1) filt by (simp add: fsA_def)
    have c2: "\<forall>p \<in> set (f # rest). changedBy fs pm p \<longrightarrow>
                  fs1 p = map_option (\<lambda>c. replacePortsInEnvContent c pm) (fs p)
                  \<and> fs1 (p @ ENV_BACKUP_SUFFIX) = fs p"
      using ih(2) f1 f2 content ch_same rest_same by auto
    have c3: "\<forall>p \<in> set (f # rest). \<not> changedBy fs pm p \<longrightarrow>
                  fs1 p = fs p \<and> fs1 (p @ ENV_BACKUP_SUFFIX) = fs (p @ ENV_BACKUP_SUFFIX)"
      using ih(3) True ch_same rest_same rest_bsame by auto
    have c4: "\<forall>q. q \<notin> set (f # rest) \<and> (\<forall>p \<in> set (f # rest). q \<noteq> p @ ENV_BACKUP_SUFFIX)
                  \<longrightarrow> fs1 q = fs q"
      using ih(4) fsA_other by auto
    show ?thesis
      apply (rule exI[of _ fs1])
      apply (intro conjI)
         apply (rule run)
        apply (rule c2)
       apply (rule c3)
      apply (rule c4)
      done
  qed
qed

lemma restoreAllEnvFiles_effect:
  assumes "distinct envFiles" and "\<forall>p \<in> set envFiles. \<not> suffix ENV_BACKUP_SUFFIX p"
  shows "\<exists>fs2. restoreAllEnvFiles relative fs envFiles
                  = (fs2, map relative (filter (hasBackup fs) envFiles))
           \<and> (\<forall>p \<in> set envFiles. hasBackup fs p \<longrightarrow> fs2 p = fs (p @ ENV_BACKUP_SUFFIX))
           \<and> (\<forall>p \<in> set envFiles. \<not> hasBackup fs p \<longrightarrow> fs2 p = fs p)
           \<and> (\<forall>p \<in> set envFiles. fs2 (p @ ENV_BACKUP_SUFFIX) = None)
           \<and> (\<forall>q. q \<notin> set envFiles \<and> (\<forall>p \<in> set envFiles. q \<noteq> p @ ENV_BACKUP_SUFFIX)
                  \<longrightarrow> fs2 q = fs q)"
  using assms
proof (induction envFiles arbitrary: fs)
  case Nil
  then show ?case by simp
next
  case (Cons f rest)
  from Cons.prems have nosuf: "\<not> suffix ENV_BACKUP_SUFFIX f"
    and rest_nosuf: "\<forall>p \<in> set rest. \<not> suffix ENV_BACKUP_SUFFIX p"
    and fresh: "f \<notin> set rest" and drest: "distinct rest"
    by auto
  obtain fsA did where step: "restoreEnvFile fs f = (fsA, did)"
    by (cases "restoreEnvFile fs f") blast
  have did: "did = hasBackup fs f"
    using step by (auto simp: restoreEnvFile_def hasBackup_def Let_def split: option.splits)
  have fsA_f: "fsA f = (if hasBackup fs f then fs (f @ ENV_BACKUP_SUFFIX) else fs f)"
    using step nosuf
    by (auto simp: restoreEnvFile_def hasBackup_def Let_def backup_path_neq split: option.splits)
  have fsA_b: "fsA (f @ ENV_BACKUP_SUFFIX) = None"
    using step by (auto simp: restoreEnvFile_def Let_def split: option.splits)
  have fsA_other: "fsA q = fs q" if "q \<noteq> f" "q \<noteq> f @ ENV_BACKUP_SUFFIX" for q
    using step that by (auto simp: restoreEnvFile_def Let_def split: option.splits)
  have rest_same: "fsA p = fs p" if "p \<in> set rest" for p
    using that fresh rest_nosuf by (intro fsA_other) (auto simp: suffix_def)
  have rest_bsame: "fsA (p @ ENV_BACKUP_SUFFIX) = fs (p @ ENV_BACKUP_SUFFIX)" if "p \<in> set rest" for p
    using that fresh nosuf by (intro fsA_other) (auto simp: suffix_def)
  have hb_same: "hasBackup fsA p = hasBackup fs p" if "p \<in> set rest" for p
    using rest_bsame[OF that] by (simp add: hasBackup_def)
  from Cons.IH[OF drest rest_nosuf, of fsA] obtain fs2 where ih:
    "restoreAllEnvFiles relative fsA rest = (fs2, map relative (filter (hasBackup fsA) rest))"
    "\<forall>p \<in> set rest. hasBackup fsA p \<longrightarrow> fs2 p = fsA (p @ ENV_BACKUP_SUFFIX)"
    "\<forall>p \<in> set rest. \<not> hasBackup fsA p \<longrightarrow> fs2 p = fsA p"
    "\<forall>p \<in> set rest. fs2 (p @ ENV_BACKUP_SUFFIX) = None"
    "\<forall>q. q \<notin> set rest \<and> (\<forall>p \<in> set rest. q \<noteq> p @ ENV_BACKUP_SUFFIX) \<longrightarrow> fs2 q = fsA q"
    by blast
  have filt: "filter (hasBackup fsA) rest = filter (hasBackup fs) rest"
    using hb_same by (intro filter_cong) simp_all
  have keep_f: "fs2 f = fsA f"
  proof -
    have "\<forall>p \<in> set rest. f \<noteq> p @ ENV_BACKUP_SUFFIX" using nosuf by (auto simp: suffix_def)
    with ih(5) fresh show ?thesis by blast
  qed
  have keep_b: "fs2 (f @ ENV_BACKUP_SUFFIX) = fsA (f @ ENV_BACKUP_SUFFIX)"
  proof -
    have "f @ ENV_BACKUP_SUFFIX \<notin> set rest"
      using rest_nosuf by (auto simp: suffix_def)
    moreover have "\<forall>p \<in> set rest. f @ ENV_BACKUP_SUFFIX \<noteq> p @ ENV_BACKUP_SUFFIX"
      using fresh by auto
    ultimately show ?thesis using ih(5) by blast
  qed
  have run: "restoreAllEnvFiles relative fs (f # rest)
             = (fs2, map relative (filter (hasBackup fs) (f # rest)))"
    using step did ih(1) filt by simp
  have c2: "\<forall>p \<in> set (f # rest). hasBackup fs p \<longrightarrow> fs2 p = fs (p @ ENV_BACKUP_SUFFIX)"
    using ih(2) keep_f fsA_f hb_same rest_bsame by auto
  have c3: "\<forall>p \<in> set (f # rest). \<not> hasBackup fs p \<longrightarrow> fs2 p = fs p"
    using ih(3) keep_f fsA_f hb_same rest_same by auto
  have c4: "\<forall>p \<in> set (f # rest). fs2 (p @ ENV_BACKUP_SUFFIX) = None"
    using ih(4) keep_b fsA_b by auto
  have c5: "\<forall>q. q \<notin> set (f # rest) \<and> (\<forall>p \<in> set (f # rest). q \<noteq> p @ ENV_BACKUP_SUFFIX)
                  \<longrightarrow> fs2 q = fs q"
    using ih(5) fsA_other by auto
  show ?case
    apply (rule exI[of _ fs2])
    apply (intro conjI)
        apply (rule run)
       apply (rule c2)
      apply (rule c3)
     apply (rule c4)
    apply (rule c5)
    done
qed

text \<open>
  Claim C6, as stated, fails where a backup of an unmodified file is already on disk (as
  after an earlier \<open>updateEnvFiles\<close> that was not followed by a restore): the file is not
  rewritten and gets no new backup, yet \<open>restoreAllEnvFiles\<close> restores it from the old
  backup and reports it.
\<close>

theorem restoreAllEnvFiles_reports_unmodified_file:
  "replacePortsInEnvContent ''FOO=bar'' [(''54321'', ''60000'')] = ''FOO=bar''
   \<and> updateEnvFiles id [''.env'' \<mapsto> ''FOO=bar'', ''.env.sb-backup'' \<mapsto> ''FOO=old'']
         [(''54321'', ''60000'')] [''.env'']
       = Inr ([''.env'' \<mapsto> ''FOO=bar'', ''.env.sb-backup'' \<mapsto> ''FOO=old''], [])
   \<and> snd (restoreAllEnvFiles id [''.env'' \<mapsto> ''FOO=bar'', ''.env.sb-backup'' \<mapsto> ''FOO=old'']
         [''.env'']) = [''.env'']
   \<and> fst (restoreAllEnvFiles id [''.env'' \<mapsto> ''FOO=bar'', ''.env.sb-backup'' \<mapsto> ''FOO=old'']
         [''.env'']) ''.env'' = Some ''FOO=old''"
proof -
  have same: "replacePortsInEnvContent ''FOO=bar'' [(''54321'', ''60000'')] = ''FOO=bar''"
    by code_simp
  show ?thesis
    by (simp add: same restoreEnvFile_def ENV_BACKUP_SUFFIX_def)
qed

text \<open>
  Claim C6, amended. For the files found by the discovery (distinct, existing, none a
  backup file), \<open>updateEnvFiles\<close> succeeds and reports exactly the files whose rewritten
  content differs; a file whose rewritten content equals the original is not written and
  gets no backup. \<open>restoreAllEnvFiles\<close> on the same files then restores every file that
  was modified to its original content, leaves no backup of any of the files, and reports
  the modified files together with the files that already had a backup before the update;
  an unmodified file without such an older backup keeps its content and is not reported.
\<close>

theorem updateEnvFiles_restoreAllEnvFiles_inverse:
  assumes "discovered fs envFiles"
  shows "\<exists>fs1 fs2.
           updateEnvFiles relative fs pm envFiles
             = Inr (fs1, map relative (filter (changedBy fs pm) envFiles))
         \<and> restoreAllEnvFiles relative fs1 envFiles
             = (fs2, map relative (filter (\<lambda>p. changedBy fs pm p \<or> hasBackup fs p) envFiles))
         \<and> (\<forall>p \<in> set envFiles. changedBy fs pm p \<longrightarrow> fs2 p = fs p)
         \<and> (\<forall>p \<in> set envFiles. fs2 (p @ ENV_BACKUP_SUFFIX) = None)
         \<and> (\<forall>p \<in> set envFiles. \<not> changedBy fs pm p \<longrightarrow>
               fs1 p = fs p \<and> fs1 (p @ ENV_BACKUP_SUFFIX) = fs (p @ ENV_BACKUP_SUFFIX))
         \<and> (\<forall>p \<in> set envFiles. \<not> changedBy fs pm p \<and> \<not> hasBackup fs p \<longrightarrow> fs2 p = fs p)"
proof -
  from assms have dist: "distinct envFiles"
    and nosuf: "\<forall>p \<in> set envFiles. \<not> suffix ENV_BACKUP_SUFFIX p"
    and ex: "\<forall>p \<in> set envFiles. fs p \<noteq> None"
    by (auto simp: discovered_def list_all_iff)
  from updateEnvFiles_effect[OF assms, of relative pm] obtain fs1 where u:
    "updateEnvFiles relative fs pm envFiles
       = Inr (fs1, map relative (filter (changedBy fs pm) envFiles))"
    "\<forall>p \<in> set envFiles. changedBy fs pm p \<longrightarrow>
        fs1 p = map_option (\<lambda>c. replacePortsInEnvContent c pm) (fs p)
        \<and> fs1 (p @ ENV_BACKUP_SUFFIX) = fs p"
    "\<forall>p \<in> set envFiles. \<not> changedBy fs pm p \<longrightarrow>
        fs1 p = fs p \<and> fs1 (p @ ENV_BACKUP_SUFFIX) = fs (p @ ENV_BACKUP_SUFFIX)"
    by blast
  from restoreAllEnvFiles_effect[OF dist nosuf, of relative fs1] obtain fs2 where r:
    "restoreAllEnvFiles relative fs1 envFiles
       = (fs2, map relative (filter (hasBackup fs1) envFiles))"
    "\<forall>p \<in> set envFiles. hasBackup fs1 p \<longrightarrow> fs2 p = fs1 (p @ ENV_BACKUP_SUFFIX)"
    "\<forall>p \<in> set envFiles. \<not> hasBackup fs1 p \<longrightarrow> fs2 p = fs1 p"
    "\<forall>p \<in> set envFiles. fs2 (p @ ENV_BACKUP_SUFFIX) = None"
    by blast
  have hb: "hasBackup fs1 p = (changedBy fs pm p \<or> hasBackup fs p)" if "p \<in> set envFiles" for p
  proof (cases "changedBy fs pm p")
    case True
    with u(2) that have "fs1 (p @ ENV_BACKUP_SUFFIX) = fs p" by blast
    with ex that True show ?thesis by (simp add: hasBackup_def)
  next
    case False
    with u(3) that have "fs1 (p @ ENV_BACKUP_SUFFIX) = fs (p @ ENV_BACKUP_SUFFIX)" by blast
    with False show ?thesis by (simp add: hasBackup_def)
  qed
  then have filt: "filter (hasBackup fs1) envFiles
                   = filter (\<lambda>p. changedBy fs pm p \<or> hasBackup fs p) envFiles"
    by (intro filter_cong) simp_all
  have c3: "\<forall>p \<in> set envFiles. changedBy fs pm p \<longrightarrow> fs2 p = fs p"
    using r(2) u(2) hb by auto
  have c6: "\<forall>p \<in> set envFiles. \<not> changedBy fs pm p \<and> \<not> hasBackup fs p \<longrightarrow> fs2 p = fs p"
    using r(3) u(3) hb by auto
  show ?thesis
    apply (rule exI[of _ fs1])
    apply (rule exI[of _ fs2])
    apply (intro conjI)
         apply (rule u(1))
        apply (simp only: r(1) filt)
       apply (rule c3)
      apply (rule r(4))
     apply (rule u(3))
    apply (rule c6)
    done
qed

theorem updateEnvFiles_restoreAllEnvFiles_inverse_witness:
  "discovered [''.env'' \<mapsto> ''URL=http://localhost:54321''] [''.env'']
   \<and> changedBy [''.env'' \<mapsto> ''URL=http://localhost:54321''] [(''54321'', ''60000'')] ''.env''
   \<and> (\<exists>fs1 fs2.
         updateEnvFiles id [''.env'' \<mapsto> ''URL=http://localhost:54321'']
             [(''54321'', ''60000'')] [''.env''] = Inr (fs1, [''.env''])
       \<and> restoreAllEnvFiles id fs1 [''.env''] = (fs2, [''.env''])
       \<and> fs2 ''.env'' = Some ''URL=http://localhost:54321''
       \<and> fs2 (''.env'' @ ENV_BACKUP_SUFFIX) = None)"
proof -
  let ?fs = "[''.env'' \<mapsto> ''URL=http://localhost:54321'']"
  let ?pm = "[(''54321'', ''60000'')]"
  have rw: "replacePortsInEnvContent ''URL=http://localhost:54321'' ?pm = ''URL=http://localhost:60000''"
    by code_simp
  have d: "discovered ?fs [''.env'']"
    by (simp add: discovered_def ENV_BACKUP_SUFFIX_def suffix_to_prefix)
  have c: "changedBy ?fs ?pm ''.env''"
    by (simp add: changedBy_def rw)
  from updateEnvFiles_restoreAllEnvFiles_inverse[OF d, of id ?pm] obtain fs1 fs2 where
    "updateEnvFiles id ?fs ?pm [''.env''] = Inr (fs1, map id (filter (changedBy ?fs ?pm) [''.env'']))"
    "restoreAllEnvFiles id fs1 [''.env'']
       = (fs2, map id (filter (\<lambda>p. changedBy ?fs ?pm p \<or> hasBackup ?fs p) [''.env'']))"
    "\<forall>p \<in> set [''.env'']. changedBy ?fs ?pm p \<longrightarrow> fs2 p = ?fs p"
    "\<forall>p \<in> set [''.env'']. fs2 (p @ ENV_BACKUP_SUFFIX) = None"
    by blast
  with c have "updateEnvFiles id ?fs ?pm [''.env''] = Inr (fs1, [''.env''])
       \<and> restoreAllEnvFiles id fs1 [''.env''] = (fs2, [''.env''])
       \<and> fs2 ''.env'' = Some ''URL=http://localhost:54321''
       \<and> fs2 (''.env'' @ ENV_BACKUP_SUFFIX) = None"
    by simp
  then have "\<exists>fs1 fs2.
         updateEnvFiles id ?fs ?pm [''.env''] = Inr (fs1, [''.env''])
       \<and> restoreAllEnvFiles id fs1 [''.env''] = (fs2, [''.env''])
       \<and> fs2 ''.env'' = Some ''URL=http://localhost:54321''
       \<and> fs2 (''.env'' @ ENV_BACKUP_SUFFIX) = None"
    by blast
  with d c show ?thesis by blast
qed

section \<open>Config rewriter (lib/template: generateConfig)\<close>








































section \<open>Round trip of the environment rewriter\<close>

text \<open>
  The content is read as a sequence of chunks: single code units, and references made of
  a recognized host, a colon and a port. The passes of \<open>replacePortsInEnvContent\<close> are
  then followed on the chunks.
\<close>

datatype chunk = Plain char | Ref string string

fun renderChunk :: "chunk \<Rightarrow> string" where
  "renderChunk (Plain c) = [c]"
| "renderChunk (Ref h p) = h @ CHR '':'' # p"

definition render :: "chunk list \<Rightarrow> string" where
  "render cs = concat (map renderChunk cs)"

definition dotOrDigit :: "char \<Rightarrow> bool" where
  "dotOrDigit c = (isDigit c \<or> c = CHR ''.'')"

text \<open>The text after a reference: empty, or starting with neither a digit nor a dot.\<close>

definition freeAfter :: "string \<Rightarrow> bool" where
  "freeAfter t = (t = [] \<or> \<not> dotOrDigit (hd t))"

text \<open>A set of port numerals none of which is a prefix of another.\<close>

definition portSet :: "string set \<Rightarrow> bool" where
  "portSet S = (\<forall>x \<in> S. x \<noteq> [] \<and> list_all isDigit x \<and> (\<forall>y \<in> S. prefix x y \<longrightarrow> x = y))"

fun wfChunks :: "string set \<Rightarrow> chunk list \<Rightarrow> bool" where
  "wfChunks S [] = True"
| "wfChunks S (Plain c # cs) =
     ((\<forall>h \<in> set REPLACEABLE_HOSTS. \<forall>x \<in> S. \<not> prefix (h @ CHR '':'' # x) (c # render cs))
      \<and> wfChunks S cs)"
| "wfChunks S (Ref h p # cs) =
     (h \<in> set REPLACEABLE_HOSTS \<and> p \<in> S \<and> freeAfter (render cs) \<and> wfChunks S cs)"

definition substChunk :: "string \<Rightarrow> string \<Rightarrow> string \<Rightarrow> chunk \<Rightarrow> chunk" where
  "substChunk h x y ch = (if ch = Ref h x then Ref h y else ch)"

lemma render_simps [simp]:
  "render [] = []"
  "render (Plain c # cs) = c # render cs"
  "render (Ref h p # cs) = h @ CHR '':'' # p @ render cs"
  by (simp_all add: render_def)

lemma replaceAll_Nil: "pat \<noteq> [] \<Longrightarrow> replaceAll pat rep [] = []"
  by (simp add: replaceAll.simps)

lemma replaceAll_match:
  "pat \<noteq> [] \<Longrightarrow> replaceAll pat rep (pat @ t) = rep @ replaceAll pat rep t"
  by (subst replaceAll.simps) simp

lemma replaceAll_Cons:
  "pat \<noteq> [] \<Longrightarrow> \<not> prefix pat (c # t) \<Longrightarrow> replaceAll pat rep (c # t) = c # replaceAll pat rep t"
  by (subst replaceAll.simps) simp

lemma replaceAll_skip:
  "pat \<noteq> [] \<Longrightarrow> (\<forall>j < length u. \<not> prefix pat (drop j u @ t)) \<Longrightarrow>
     replaceAll pat rep (u @ t) = u @ replaceAll pat rep t"
proof (induction u)
  case Nil
  show ?case by simp
next
  case (Cons c u)
  from Cons.prems(2) have "\<not> prefix pat (drop 0 (c # u) @ t)" by blast
  then have h0: "\<not> prefix pat (c # u @ t)" by simp
  have "\<forall>j < length u. \<not> prefix pat (drop j u @ t)"
  proof (intro allI impI)
    fix j assume "j < length u"
    then have "Suc j < length (c # u)" by simp
    with Cons.prems(2) have "\<not> prefix pat (drop (Suc j) (c # u) @ t)" by blast
    then show "\<not> prefix pat (drop j u @ t)" by simp
  qed
  with Cons.IH[OF Cons.prems(1)] have "replaceAll pat rep (u @ t) = u @ replaceAll pat rep t" by simp
  with replaceAll_Cons[OF Cons.prems(1) h0, of rep] show ?case by simp
qed

lemma host_cases:
  "h \<in> set REPLACEABLE_HOSTS \<Longrightarrow>
     h = ''localhost'' \<or> h = ''127.0.0.1'' \<or> h = ''0.0.0.0'' \<or> h = ''host.docker.internal''"
  by (simp add: REPLACEABLE_HOSTS_def)

lemma host_no_colon: "h \<in> set REPLACEABLE_HOSTS \<Longrightarrow> CHR '':'' \<notin> set h"
  by (auto dest!: host_cases)

lemma host_nonempty: "h \<in> set REPLACEABLE_HOSTS \<Longrightarrow> h \<noteq> []"
  by (auto dest!: host_cases)

lemma host_suffix:
  "h \<in> set REPLACEABLE_HOSTS \<Longrightarrow> k \<in> set REPLACEABLE_HOSTS \<Longrightarrow> suffix h k \<Longrightarrow> h = k"
  by (auto dest!: host_cases simp: suffix_to_prefix)

lemma host_has_nondigit: "h \<in> set REPLACEABLE_HOSTS \<Longrightarrow> \<exists>c \<in> set h. \<not> isDigit c"
  by (auto dest!: host_cases simp: isDigit_def)

lemma host_digit_start:
  "h \<in> set REPLACEABLE_HOSTS \<Longrightarrow> isDigit (hd h) \<Longrightarrow> \<forall>c \<in> set h. dotOrDigit c"
  by (auto dest!: host_cases simp: isDigit_def dotOrDigit_def)

lemma digit_not_colon: "list_all isDigit x \<Longrightarrow> CHR '':'' \<notin> set x"
  by (auto simp: list_all_iff isDigit_def)

lemma substChunk_Plain [simp]: "substChunk h x y (Plain c) = Plain c"
  by (simp add: substChunk_def)

lemma substChunk_same [simp]: "substChunk h x y (Ref h x) = Ref h y"
  by (simp add: substChunk_def)

lemma substChunk_other: "\<not> (k = h \<and> p = x) \<Longrightarrow> substChunk h x y (Ref k p) = Ref k p"
  by (auto simp: substChunk_def)

lemma takeWhile_colon: "CHR '':'' \<notin> set a \<Longrightarrow> takeWhile (\<lambda>c. c \<noteq> CHR '':'') (a @ CHR '':'' # X) = a"
  by (induction a) auto

lemma colon_align:
  assumes "prefix (a @ CHR '':'' # u) (b @ CHR '':'' # w)"
    and "CHR '':'' \<notin> set a" and "CHR '':'' \<notin> set b"
  shows "a = b \<and> prefix u w"
proof -
  from assms(1) obtain z where eq: "b @ CHR '':'' # w = a @ CHR '':'' # (u @ z)"
    by (auto simp: prefix_def)
  then have "takeWhile (\<lambda>c. c \<noteq> CHR '':'') (b @ CHR '':'' # w)
             = takeWhile (\<lambda>c. c \<noteq> CHR '':'') (a @ CHR '':'' # (u @ z))" by simp
  then have ab: "a = b" using assms(2,3) by (simp add: takeWhile_colon)
  with eq have "w = u @ z" by simp
  with ab show ?thesis by simp
qed

lemma no_colon_prefix:
  assumes "CHR '':'' \<notin> set q"
  shows "prefix q (k @ CHR '':'' # Z) = prefix q k"
proof
  assume "prefix q k"
  then show "prefix q (k @ CHR '':'' # Z)" by (rule prefix_prefix)
next
  assume "prefix q (k @ CHR '':'' # Z)"
  then consider "prefix q k" | us where "q = k @ us" "prefix us (CHR '':'' # Z)"
    by (auto simp: prefix_append)
  then show "prefix q k"
  proof cases
    case 1
    then show ?thesis .
  next
    case 2
    show ?thesis
    proof (cases us)
      case Nil
      with 2 show ?thesis by simp
    next
      case (Cons c cs)
      with 2(2) have "c = CHR '':''" by simp
      with Cons 2(1) assms show ?thesis by simp
    qed
  qed
qed

lemma one_colon:
  assumes "p0 @ q1 @ CHR '':'' # q2 = h @ CHR '':'' # x"
    and "CHR '':'' \<notin> set h" and "CHR '':'' \<notin> set x"
  shows "p0 @ q1 = h"
proof -
  from assms(1) have "filter (\<lambda>c. c = CHR '':'') (p0 @ q1 @ CHR '':'' # q2)
                      = filter (\<lambda>c. c = CHR '':'') (h @ CHR '':'' # x)" by simp
  moreover have "filter (\<lambda>c. c = CHR '':'') h = []" "filter (\<lambda>c. c = CHR '':'') x = []"
    using assms(2,3) by (auto simp: filter_empty_conv)
  ultimately have "length (filter (\<lambda>c. c = CHR '':'') (p0 @ q1 @ CHR '':'' # q2)) = 1" by simp
  then have "filter (\<lambda>c. c = CHR '':'') (p0 @ q1) = []" by simp
  then have nc: "CHR '':'' \<notin> set (p0 @ q1)" by (auto simp: filter_empty_conv)
  from assms(1) have "prefix ((p0 @ q1) @ CHR '':'' # q2) (h @ CHR '':'' # x)" by simp
  from colon_align[OF this nc assms(2)] show ?thesis by simp
qed

lemma plain_occurrence_subst:
  assumes "h \<in> set REPLACEABLE_HOSTS" and "CHR '':'' \<notin> set x"
    and "\<forall>ch \<in> set cs. \<forall>k p. ch = Ref k p \<longrightarrow> k \<in> set REPLACEABLE_HOSTS"
    and "p0 \<noteq> []" and "p0 @ q = h @ CHR '':'' # x"
  shows "prefix q (render (map (substChunk h0 x0 y0) cs)) = prefix q (render cs)"
  using assms(3-5)
proof (induction cs arbitrary: p0 q)
  case Nil
  show ?case by simp
next
  case (Cons ch cs)
  from Cons.prems(1) have hosts: "\<forall>ch \<in> set cs. \<forall>k p. ch = Ref k p \<longrightarrow> k \<in> set REPLACEABLE_HOSTS"
    by simp
  show ?case
  proof (cases ch)
    case (Plain c)
    show ?thesis
    proof (cases q)
      case Nil
      then show ?thesis by simp
    next
      case (Cons d q')
      have "(p0 @ [d]) @ q' = h @ CHR '':'' # x" using Cons.prems(3) Cons by simp
      from Cons.IH[OF hosts _ this]
      have "prefix q' (render (map (substChunk h0 x0 y0) cs)) = prefix q' (render cs)" by simp
      with Plain Cons show ?thesis by simp
    qed
  next
    case (Ref k p)
    with Cons.prems(1) have k: "k \<in> set REPLACEABLE_HOSTS" by simp
    obtain p' where sub: "substChunk h0 x0 y0 ch = Ref k p'"
      using Ref by (cases "k = h0 \<and> p = x0") (auto simp: substChunk_def)
    have never: "\<not> prefix q (k @ CHR '':'' # Z)" if c: "CHR '':'' \<in> set q" for Z
    proof
      assume pre: "prefix q (k @ CHR '':'' # Z)"
      from c obtain q1 q2 where q: "q = q1 @ CHR '':'' # q2" and q1: "CHR '':'' \<notin> set q1"
        by (meson split_list_first)
      from colon_align[OF pre[unfolded q] q1 host_no_colon[OF k]] have "q1 = k" by simp
      moreover from one_colon[OF Cons.prems(3)[unfolded q] host_no_colon[OF assms(1)] assms(2)]
      have "p0 @ q1 = h" .
      ultimately have "suffix k h" "k \<noteq> h" using Cons.prems(2) by (auto simp: suffix_def)
      with host_suffix[OF k assms(1)] show False by simp
    qed
    show ?thesis
    proof (cases "CHR '':'' \<in> set q")
      case True
      from never[OF True] Ref sub show ?thesis by simp
    next
      case False
      from no_colon_prefix[OF False] Ref sub show ?thesis by simp
    qed
  qed
qed

lemma digits_prefix_free_text:
  assumes "list_all isDigit x" and "prefix x (p @ t)" and "freeAfter t"
  shows "prefix x p"
proof -
  from assms(2) have "prefix x p \<or> (\<exists>us. x = p @ us \<and> prefix us t)"
    by (simp add: prefix_append)
  then consider "prefix x p" | us where "x = p @ us" "us \<noteq> []" "prefix us t"
  proof
    assume "prefix x p"
    then show ?thesis by (rule that(1))
  next
    assume "\<exists>us. x = p @ us \<and> prefix us t"
    then obtain us where us: "x = p @ us" "prefix us t" by blast
    show ?thesis
    proof (cases "us = []")
      case True
      with us(1) have "prefix x p" by simp
      then show ?thesis by (rule that(1))
    next
      case False
      show ?thesis by (rule that(2)[OF us(1) False us(2)])
    qed
  qed
  then show ?thesis
  proof cases
    case 1
    then show ?thesis .
  next
    case 2
    then obtain c us' where us: "us = c # us'" by (cases us) auto
    with 2(3) have "t \<noteq> []" "hd t = c" by (auto simp: prefix_def)
    moreover from us 2(1) assms(1) have "isDigit c" by (simp add: list_all_iff)
    ultimately have False using assms(3) by (simp add: freeAfter_def dotOrDigit_def)
    then show ?thesis ..
  qed
qed

lemma no_match_in_ref:
  assumes h: "h \<in> set REPLACEABLE_HOSTS" and k: "k \<in> set REPLACEABLE_HOSTS"
    and x: "list_all isDigit x" and p: "list_all isDigit p"
    and t: "freeAfter t" and diff: "k = h \<longrightarrow> \<not> prefix x p"
    and j: "j < length (k @ CHR '':'' # p)"
  shows "\<not> prefix (h @ CHR '':'' # x) (drop j (k @ CHR '':'' # p) @ t)"
proof
  assume pre: "prefix (h @ CHR '':'' # x) (drop j (k @ CHR '':'' # p) @ t)"
  show False
  proof (cases "j \<le> length k")
    case True
    then have "drop j (k @ CHR '':'' # p) @ t = drop j k @ CHR '':'' # (p @ t)" by simp
    with pre have "prefix (h @ CHR '':'' # x) (drop j k @ CHR '':'' # (p @ t))" by simp
    moreover have "CHR '':'' \<notin> set (drop j k)"
      using host_no_colon[OF k] by (meson in_set_dropD)
    ultimately have a: "h = drop j k" "prefix x (p @ t)"
      using colon_align host_no_colon[OF h] by blast+
    from a(1) have "suffix h k" by (simp add: suffix_drop)
    with host_suffix[OF h k] have "h = k" .
    moreover from digits_prefix_free_text[OF x a(2) t] have "prefix x p" .
    ultimately show False using diff by simp
  next
    case False
    define p2 where "p2 = drop (j - length k - 1) p"
    from False j have p2: "drop j (k @ CHR '':'' # p) = p2" "p2 \<noteq> []"
      by (auto simp: p2_def drop_Cons')
    have dp2: "list_all isDigit p2" using p by (auto simp: p2_def list_all_iff dest: in_set_dropD)
    from pre p2 have hp: "prefix h (p2 @ t)" by (metis append_prefixD)
    obtain c where c: "c \<in> set h" "\<not> isDigit c" using host_has_nondigit[OF h] by blast
    have "\<not> prefix h p2"
    proof
      assume "prefix h p2"
      then have "set h \<subseteq> set p2" by (rule set_mono_prefix)
      with c dp2 show False by (auto simp: list_all_iff)
    qed
    with hp obtain us where us: "h = p2 @ us" "us \<noteq> []" "prefix us t"
      by (auto simp: prefix_append)
    from us(1) p2(2) have "hd h = hd p2" by simp
    moreover from p2(2) dp2 have "isDigit (hd p2)" by (cases p2) simp_all
    ultimately have "isDigit (hd h)" by simp
    from host_digit_start[OF h this] us(1,2) have "dotOrDigit (hd us)"
      by (cases us) simp_all
    moreover from us(2,3) have "t \<noteq> []" "hd t = hd us" by (cases us; auto simp: prefix_def)+
    ultimately show False using t by (simp add: freeAfter_def)
  qed
qed

lemma replaceAll_chunks:
  assumes S: "portSet S" and h: "h \<in> set REPLACEABLE_HOSTS" and x: "x \<in> S"
    and wf: "wfChunks S cs"
  shows "replaceAll (h @ '':'' @ x) (h @ '':'' @ y) (render cs) = render (map (substChunk h x y) cs)"
  using wf
proof (induction cs)
  case Nil
  show ?case by (simp add: replaceAll_Nil)
next
  case (Cons ch cs)
  have pat: "h @ '':'' @ x \<noteq> []" by simp
  show ?case
  proof (cases ch)
    case (Plain c)
    with Cons.prems have nm: "\<not> prefix (h @ '':'' @ x) (c # render cs)" and wf': "wfChunks S cs"
      using h x by auto
    from replaceAll_Cons[OF pat nm] Cons.IH[OF wf'] Plain show ?thesis
      by simp
  next
    case (Ref k p)
    with Cons.prems have k: "k \<in> set REPLACEABLE_HOSTS" and p: "p \<in> S"
      and fa: "freeAfter (render cs)" and wf': "wfChunks S cs" by auto
    show ?thesis
    proof (cases "k = h \<and> p = x")
      case True
      then have "render (ch # cs) = (h @ '':'' @ x) @ render cs" using Ref by simp
      with replaceAll_match[OF pat, of "h @ '':'' @ y" "render cs"] Cons.IH[OF wf'] True Ref
      show ?thesis by simp
    next
      case False
      from S x p have dx: "list_all isDigit x" and dp: "list_all isDigit p"
        and pf: "prefix x p \<longrightarrow> x = p" by (auto simp: portSet_def)
      from False pf have diff: "k = h \<longrightarrow> \<not> prefix x p" by auto
      have "\<forall>j < length (k @ CHR '':'' # p).
              \<not> prefix (h @ '':'' @ x) (drop j (k @ CHR '':'' # p) @ render cs)"
        using no_match_in_ref[OF h k dx dp fa diff] by simp
      from replaceAll_skip[OF pat this, of "h @ '':'' @ y"] Cons.IH[OF wf'] Ref
        substChunk_other[OF False, of y]
      show ?thesis by simp
    qed
  qed
qed

lemma wfChunks_hosts:
  "wfChunks S cs \<Longrightarrow> \<forall>ch \<in> set cs. \<forall>k p. ch = Ref k p \<longrightarrow> k \<in> set REPLACEABLE_HOSTS"
  by (induction S cs rule: wfChunks.induct) auto

lemma render_subst_start:
  assumes "wfChunks S cs"
  shows "freeAfter (render (map (substChunk h0 x0 y0) cs)) = freeAfter (render cs)"
proof (cases cs)
  case Nil
  then show ?thesis by simp
next
  case (Cons ch cs')
  show ?thesis
  proof (cases ch)
    case (Plain c)
    with Cons show ?thesis by (simp add: freeAfter_def)
  next
    case (Ref k p)
    with Cons assms have "k \<noteq> []" by (auto dest: host_nonempty)
    moreover obtain p' where "substChunk h0 x0 y0 ch = Ref k p'"
      using Ref by (cases "k = h0 \<and> p = x0") (auto simp: substChunk_def)
    ultimately show ?thesis using Cons Ref by (simp add: freeAfter_def)
  qed
qed

lemma wfChunks_subst:
  assumes S: "portSet S" and y: "y \<in> S" and wf: "wfChunks S cs"
  shows "wfChunks S (map (substChunk h0 x0 y) cs)"
  using wf
proof (induction cs)
  case Nil
  show ?case by simp
next
  case (Cons ch cs)
  show ?case
  proof (cases ch)
    case (Plain c)
    with Cons.prems have none: "\<forall>h \<in> set REPLACEABLE_HOSTS. \<forall>x \<in> S.
        \<not> prefix (h @ CHR '':'' # x) (c # render cs)" and wf': "wfChunks S cs" by auto
    have "\<not> prefix (h @ CHR '':'' # x) (c # render (map (substChunk h0 x0 y) cs))"
      if h: "h \<in> set REPLACEABLE_HOSTS" and x: "x \<in> S" for h x
    proof
      assume pre: "prefix (h @ CHR '':'' # x) (c # render (map (substChunk h0 x0 y) cs))"
      obtain d q where pat: "h @ CHR '':'' # x = d # q" by (cases "h @ CHR '':'' # x") auto
      with pre have dc: "d = c" and pq: "prefix q (render (map (substChunk h0 x0 y) cs))" by simp_all
      from S x have "CHR '':'' \<notin> set x" by (auto simp: portSet_def dest: digit_not_colon)
      from plain_occurrence_subst[OF h this wfChunks_hosts[OF wf'], of "[d]" q h0 x0 y] pat pq
      have "prefix q (render cs)" by simp
      with pat dc have "prefix (h @ CHR '':'' # x) (c # render cs)" by simp
      with none h x show False by blast
    qed
    with Cons.IH[OF wf'] Plain show ?thesis by simp
  next
    case (Ref k p)
    with Cons.prems have k: "k \<in> set REPLACEABLE_HOSTS" and p: "p \<in> S"
      and fa: "freeAfter (render cs)" and wf': "wfChunks S cs" by auto
    obtain p' where sub: "substChunk h0 x0 y ch = Ref k p'" and p': "p' \<in> S"
      using Ref p y by (cases "k = h0 \<and> p = x0") (auto simp: substChunk_def)
    from render_subst_start[OF wf', of h0 x0 y] fa
    have "freeAfter (render (map (substChunk h0 x0 y) cs))" by simp
    with Cons.IH[OF wf'] sub p' k show ?thesis by simp
  qed
qed

text \<open>The passes on the chunks.\<close>

definition hostsSubst :: "string list \<Rightarrow> string \<Rightarrow> string \<Rightarrow> chunk list \<Rightarrow> chunk list" where
  "hostsSubst hs k v cs = foldl (\<lambda>cs h. map (substChunk h k v) cs) cs hs"

definition mapSubst :: "port_map \<Rightarrow> chunk list \<Rightarrow> chunk list" where
  "mapSubst ps cs =
     foldl (\<lambda>cs (k, v). if k = v then cs else hostsSubst REPLACEABLE_HOSTS k v cs) cs ps"

lemma hosts_fold_chunks:
  assumes S: "portSet S" and k: "k \<in> S" and v: "v \<in> S"
  shows "set hs \<subseteq> set REPLACEABLE_HOSTS \<Longrightarrow> wfChunks S cs \<Longrightarrow>
     foldl (\<lambda>result host. replaceAll (host @ '':'' @ k) (host @ '':'' @ v) result) (render cs) hs
       = render (hostsSubst hs k v cs)
     \<and> wfChunks S (hostsSubst hs k v cs)"
proof (induction hs arbitrary: cs)
  case Nil
  then show ?case by (simp add: hostsSubst_def)
next
  case (Cons h hs)
  from Cons.prems(1) have h: "h \<in> set REPLACEABLE_HOSTS" and hs: "set hs \<subseteq> set REPLACEABLE_HOSTS"
    by simp_all
  from replaceAll_chunks[OF S h k Cons.prems(2), of v]
  have step: "replaceAll (h @ '':'' @ k) (h @ '':'' @ v) (render cs)
              = render (map (substChunk h k v) cs)" .
  from wfChunks_subst[OF S v Cons.prems(2), of h k]
  have wf': "wfChunks S (map (substChunk h k v) cs)" .
  from Cons.IH[OF hs wf'] step show ?case by (simp add: hostsSubst_def)
qed

lemma replaceHosts_chunks:
  assumes "portSet S" and "k \<in> S" and "v \<in> S" and "wfChunks S cs"
  shows "replaceHosts k v (render cs) = render (hostsSubst REPLACEABLE_HOSTS k v cs)
         \<and> wfChunks S (hostsSubst REPLACEABLE_HOSTS k v cs)"
  using hosts_fold_chunks[OF assms(1-3) subset_refl assms(4)] by (simp add: replaceHosts_def)

lemma replacePorts_chunks:
  assumes S: "portSet S"
  shows "\<forall>(k, v) \<in> set ps. k \<in> S \<and> v \<in> S \<Longrightarrow> wfChunks S cs \<Longrightarrow>
     replacePortsInEnvContent (render cs) ps = render (mapSubst ps cs)
     \<and> wfChunks S (mapSubst ps cs)"
proof (induction ps arbitrary: cs)
  case Nil
  then show ?case by (simp add: replacePortsInEnvContent_def mapSubst_def)
next
  case (Cons e ps)
  obtain k v where e: "e = (k, v)" by (cases e) auto
  with Cons.prems(1) have k: "k \<in> S" and v: "v \<in> S"
    and rest: "\<forall>(k, v) \<in> set ps. k \<in> S \<and> v \<in> S" by auto
  let ?cs = "if k = v then cs else hostsSubst REPLACEABLE_HOSTS k v cs"
  have one: "(if k = v then render cs else replaceHosts k v (render cs)) = render ?cs"
    and wf': "wfChunks S ?cs"
    using replaceHosts_chunks[OF S k v Cons.prems(2)] Cons.prems(2) by simp_all
  from Cons.IH[OF rest wf']
  have "replacePortsInEnvContent (render ?cs) ps = render (mapSubst ps ?cs)"
    and "wfChunks S (mapSubst ps ?cs)" by simp_all
  moreover have "replacePortsInEnvContent (render cs) (e # ps)
                 = replacePortsInEnvContent (render ?cs) ps"
    unfolding e replacePortsInEnvContent_def using one by simp
  moreover have "mapSubst (e # ps) cs = mapSubst ps ?cs"
    unfolding e mapSubst_def by simp
  ultimately show ?case by simp
qed

text \<open>What the passes do to one chunk, and to the port of a reference.\<close>

fun mapPort :: "(string \<Rightarrow> string) \<Rightarrow> chunk \<Rightarrow> chunk" where
  "mapPort f (Plain c) = Plain c"
| "mapPort f (Ref h p) = Ref h (f p)"

definition portFold :: "port_map \<Rightarrow> string \<Rightarrow> string" where
  "portFold ps p = foldl (\<lambda>p (k, v). if p = k then v else p) p ps"

definition knownHosts :: "chunk list \<Rightarrow> bool" where
  "knownHosts cs = (\<forall>ch \<in> set cs. \<forall>k p. ch = Ref k p \<longrightarrow> k \<in> set REPLACEABLE_HOSTS)"

lemma foldl_map_chunks:
  "foldl (\<lambda>cs h. map (g h) cs) cs hs = map (\<lambda>ch. foldl (\<lambda>ch h. g h ch) ch hs) cs"
  by (induction hs arbitrary: cs) simp_all

lemma hosts_on_chunk:
  assumes "\<forall>k p. ch = Ref k p \<longrightarrow> k \<in> set REPLACEABLE_HOSTS"
  shows "foldl (\<lambda>ch h. substChunk h k v ch) ch REPLACEABLE_HOSTS
         = mapPort (\<lambda>p. if p = k then v else p) ch"
proof (cases ch)
  case (Plain c)
  then show ?thesis by (simp add: REPLACEABLE_HOSTS_def)
next
  case (Ref h p)
  with assms have "h \<in> set REPLACEABLE_HOSTS" by simp
  from host_cases[OF this] Ref show ?thesis
    by (auto simp: REPLACEABLE_HOSTS_def substChunk_def)
qed

lemma hostsSubst_map:
  assumes "knownHosts cs"
  shows "hostsSubst REPLACEABLE_HOSTS k v cs = map (mapPort (\<lambda>p. if p = k then v else p)) cs"
  unfolding hostsSubst_def foldl_map_chunks
  using assms by (intro map_cong refl hosts_on_chunk) (auto simp: knownHosts_def)

lemma knownHosts_mapPort: "knownHosts cs \<Longrightarrow> knownHosts (map (mapPort f) cs)"
proof -
  assume kh: "knownHosts cs"
  have "k \<in> set REPLACEABLE_HOSTS" if m: "ch \<in> set cs" and r: "mapPort f ch = Ref k p" for ch k p
  proof (cases ch)
    case (Plain c)
    with r show ?thesis by simp
  next
    case (Ref h q)
    with r have "h = k" by simp
    with Ref m kh show ?thesis by (auto simp: knownHosts_def)
  qed
  then show ?thesis by (auto simp: knownHosts_def)
qed

lemma mapPort_comp: "mapPort g (mapPort f ch) = mapPort (\<lambda>p. g (f p)) ch"
  by (cases ch) simp_all

lemma mapPort_id: "mapPort (\<lambda>p. p) ch = ch"
  by (cases ch) simp_all

lemma map_mapPort_id: "map (mapPort (\<lambda>p. p)) cs = cs"
  by (induction cs) (simp_all add: mapPort_id)

lemma mapSubst_map:
  "knownHosts cs \<Longrightarrow> mapSubst ps cs = map (mapPort (portFold ps)) cs"
proof (induction ps arbitrary: cs)
  case Nil
  have "portFold [] = (\<lambda>p. p)" by (rule ext) (simp add: portFold_def)
  then show ?case by (simp add: mapSubst_def map_mapPort_id)
next
  case (Cons e ps)
  obtain k v where e: "e = (k, v)" by (cases e) auto
  let ?f = "\<lambda>p. if p = k then v else p"
  have one: "(if k = v then cs else hostsSubst REPLACEABLE_HOSTS k v cs) = map (mapPort ?f) cs"
  proof (cases "k = v")
    case True
    then have "?f = (\<lambda>p. p)" by auto
    with True show ?thesis by (simp add: map_mapPort_id)
  next
    case False
    with hostsSubst_map[OF Cons.prems, of k v] show ?thesis by simp
  qed
  have "mapSubst (e # ps) cs = mapSubst ps (map (mapPort ?f) cs)"
    unfolding e mapSubst_def using one by simp
  also have "\<dots> = map (mapPort (portFold ps)) (map (mapPort ?f) cs)"
    by (rule Cons.IH[OF knownHosts_mapPort[OF Cons.prems]])
  also have "\<dots> = map (mapPort (\<lambda>p. portFold ps (?f p))) cs"
    by (simp add: mapPort_comp)
  also have "(\<lambda>p. portFold ps (?f p)) = portFold (e # ps)"
    unfolding e by (rule ext) (simp add: portFold_def)
  finally show ?case .
qed

lemma portFold_fix: "p \<notin> fst ` set ps \<Longrightarrow> portFold ps p = p"
proof (induction ps)
  case Nil
  show ?case by (simp add: portFold_def)
next
  case (Cons e ps)
  obtain k v where e: "e = (k, v)" by (cases e) auto
  with Cons.prems have "p \<noteq> k" "p \<notin> fst ` set ps" by auto
  with Cons.IH have "portFold ps p = p" by simp
  with \<open>p \<noteq> k\<close> show ?case unfolding e by (simp add: portFold_def)
qed

lemma portFold_hit:
  "(k, v) \<in> set ps \<Longrightarrow> \<forall>(a, b) \<in> set ps. a = k \<longrightarrow> b = v \<Longrightarrow> v \<notin> fst ` set ps \<Longrightarrow>
     portFold ps k = v"
proof (induction ps)
  case Nil
  then show ?case by simp
next
  case (Cons e ps)
  obtain a b where e: "e = (a, b)" by (cases e) auto
  from Cons.prems(3) have vfix: "v \<notin> fst ` set ps" by auto
  show ?case
  proof (cases "a = k")
    case True
    with Cons.prems(2) e have "b = v" by auto
    with True portFold_fix[OF vfix] show ?thesis unfolding e by (simp add: portFold_def)
  next
    case False
    with Cons.prems(1) e have "(k, v) \<in> set ps" by auto
    moreover from Cons.prems(2) have "\<forall>(a, b) \<in> set ps. a = k \<longrightarrow> b = v" by auto
    ultimately have "portFold ps k = v" using vfix by (rule Cons.IH)
    with False show ?thesis unfolding e by (simp add: portFold_def)
  qed
qed

text \<open>
  The two conditions on the content, checked at every position: every reference to an
  old port is followed by the end of the text or by a code unit that is neither a digit
  nor a dot, and no reference to a new port occurs.
\<close>

fun delimitedRefs :: "string list \<Rightarrow> string \<Rightarrow> bool" where
  "delimitedRefs ks [] = True"
| "delimitedRefs ks (c # t) =
     ((\<forall>h \<in> set REPLACEABLE_HOSTS. \<forall>k \<in> set ks.
          prefix (h @ CHR '':'' # k) (c # t) \<longrightarrow> freeAfter (drop (length (h @ CHR '':'' # k)) (c # t)))
      \<and> delimitedRefs ks t)"

fun noRefs :: "string list \<Rightarrow> string \<Rightarrow> bool" where
  "noRefs vs [] = True"
| "noRefs vs (c # t) =
     ((\<forall>h \<in> set REPLACEABLE_HOSTS. \<forall>v \<in> set vs. \<not> prefix (h @ CHR '':'' # v) (c # t))
      \<and> noRefs vs t)"

lemma delimitedRefs_drop: "delimitedRefs ks s \<Longrightarrow> delimitedRefs ks (drop n s)"
proof (induction s arbitrary: n)
  case Nil
  then show ?case by simp
next
  case (Cons c t)
  then show ?case by (cases n) simp_all
qed

lemma noRefs_drop: "noRefs vs s \<Longrightarrow> noRefs vs (drop n s)"
proof (induction s arbitrary: n)
  case Nil
  then show ?case by simp
next
  case (Cons c t)
  then show ?case by (cases n) simp_all
qed

definition refPorts :: "chunk list \<Rightarrow> string set" where
  "refPorts cs = {p. \<exists>h. Ref h p \<in> set cs}"

lemma chunks_exist:
  "delimitedRefs ks s \<Longrightarrow> noRefs vs s \<Longrightarrow>
     \<exists>cs. render cs = s \<and> wfChunks (set ks \<union> set vs) cs \<and> refPorts cs \<subseteq> set ks"
proof (induction s rule: length_induct)
  case (1 s)
  show ?case
  proof (cases s)
    case Nil
    have "render [] = [] \<and> wfChunks (set ks \<union> set vs) [] \<and> refPorts [] \<subseteq> set ks"
      by (simp add: refPorts_def)
    with Nil show ?thesis by blast
  next
    case (Cons c t)
    with "1.prems" have here: "\<forall>h \<in> set REPLACEABLE_HOSTS. \<forall>k \<in> set ks.
          prefix (h @ CHR '':'' # k) s \<longrightarrow> freeAfter (drop (length (h @ CHR '':'' # k)) s)"
      and nov: "\<forall>h \<in> set REPLACEABLE_HOSTS. \<forall>v \<in> set vs. \<not> prefix (h @ CHR '':'' # v) s"
      by simp_all
    show ?thesis
    proof (cases "\<exists>h \<in> set REPLACEABLE_HOSTS. \<exists>k \<in> set ks. prefix (h @ CHR '':'' # k) s")
      case True
      then obtain h k where h: "h \<in> set REPLACEABLE_HOSTS" and k: "k \<in> set ks"
        and pre: "prefix (h @ CHR '':'' # k) s" by blast
      define t' where "t' = drop (length (h @ CHR '':'' # k)) s"
      from pre have s: "s = (h @ CHR '':'' # k) @ t'" by (auto simp: t'_def prefix_def)
      then have "length t' < length s" by simp
      moreover have "delimitedRefs ks t'" "noRefs vs t'"
        unfolding t'_def using "1.prems" by (simp_all add: delimitedRefs_drop noRefs_drop)
      ultimately obtain cs where cs: "render cs = t'" "wfChunks (set ks \<union> set vs) cs"
        "refPorts cs \<subseteq> set ks" using "1.IH" by blast
      from here h k pre have "freeAfter t'" by (simp add: t'_def)
      with cs h k have "wfChunks (set ks \<union> set vs) (Ref h k # cs)" by simp
      moreover have "render (Ref h k # cs) = s" using cs(1) s by simp
      moreover have "refPorts (Ref h k # cs) \<subseteq> set ks"
        using cs(3) k by (auto simp: refPorts_def)
      ultimately show ?thesis by blast
    next
      case False
      have "length t < length s" using Cons by simp
      moreover have "delimitedRefs ks t" "noRefs vs t" using "1.prems" Cons by simp_all
      ultimately obtain cs where cs: "render cs = t" "wfChunks (set ks \<union> set vs) cs"
        "refPorts cs \<subseteq> set ks" using "1.IH" by blast
      have "\<forall>h \<in> set REPLACEABLE_HOSTS. \<forall>x \<in> set ks \<union> set vs.
              \<not> prefix (h @ CHR '':'' # x) (c # render cs)"
        using False nov cs(1) Cons by auto
      with cs(2) have "wfChunks (set ks \<union> set vs) (Plain c # cs)" by simp
      moreover have "render (Plain c # cs) = s" using cs(1) Cons by simp
      moreover have "refPorts (Plain c # cs) \<subseteq> set ks"
        using cs(3) by (auto simp: refPorts_def)
      ultimately show ?thesis by blast
    qed
  qed
qed

text \<open>
  Claim C5, as stated, fails: a content whose only port reference has the form host and
  port, but already refers to a new port of the map, is left alone by the forward pass
  and rewritten by the inverse one.
\<close>

theorem replacePortsInEnvContent_roundtrip_fails:
  "replacePortsInEnvContent
      (replacePortsInEnvContent ''A=localhost:60000'' [(''54321'', ''60000'')])
      [(''60000'', ''54321'')] = ''A=localhost:54321''
   \<and> replacePortsInEnvContent
      (replacePortsInEnvContent ''A=localhost:60000'' [(''54321'', ''60000'')])
      [(''60000'', ''54321'')] \<noteq> ''A=localhost:60000''"
  by code_simp

text \<open>
  Claim C5, amended. Let the old and new ports of the map be decimal numerals, pairwise
  distinct and none a prefix of another, and let the content hold no reference (recognized
  host, colon, port) to a new port, each of its references to an old port being followed
  by the end of the text or by a code unit that is neither a digit nor a dot. Then
  applying \<open>replacePortsInEnvContent\<close> with the map and then with the inverse map (the
  swapped pairs, in any order of enumeration) reproduces the content.
\<close>

theorem replacePortsInEnvContent_roundtrip:
  assumes S: "portSet (set (map fst pm) \<union> set (map snd pm))"
    and dist: "distinct (map fst pm @ map snd pm)"
    and sw: "set back = (\<lambda>(k, v). (v, k)) ` set pm"
    and del: "delimitedRefs (map fst pm) content"
    and nor: "noRefs (map snd pm) content"
  shows "replacePortsInEnvContent (replacePortsInEnvContent content pm) back = content"
proof -
  let ?S = "set (map fst pm) \<union> set (map snd pm)"
  from dist have dk: "distinct (map fst pm)" and dv: "distinct (map snd pm)"
    and disj: "set (map fst pm) \<inter> set (map snd pm) = {}" by simp_all
  from chunks_exist[OF del nor] obtain cs where cs: "render cs = content"
    and wf: "wfChunks ?S cs" and ports: "refPorts cs \<subseteq> set (map fst pm)" by blast
  have pmS: "\<forall>(k, v) \<in> set pm. k \<in> ?S \<and> v \<in> ?S" by force
  have invS: "\<forall>(k, v) \<in> set back. k \<in> ?S \<and> v \<in> ?S" unfolding sw by force
  from replacePorts_chunks[OF S pmS wf]
  have f: "replacePortsInEnvContent (render cs) pm = render (mapSubst pm cs)"
    and wf1: "wfChunks ?S (mapSubst pm cs)" by simp_all
  from replacePorts_chunks[OF S invS wf1]
  have g: "replacePortsInEnvContent (render (mapSubst pm cs)) back
           = render (mapSubst back (mapSubst pm cs))" by simp
  have kh: "knownHosts cs" using wfChunks_hosts[OF wf] by (simp add: knownHosts_def)
  have m1: "mapSubst pm cs = map (mapPort (portFold pm)) cs" by (rule mapSubst_map[OF kh])
  have "mapSubst back (mapSubst pm cs) = map (mapPort (portFold back)) (map (mapPort (portFold pm)) cs)"
    unfolding m1 by (rule mapSubst_map[OF knownHosts_mapPort[OF kh]])
  also have "\<dots> = map (mapPort (\<lambda>p. portFold back (portFold pm p))) cs"
    by (simp add: mapPort_comp)
  also have "\<dots> = cs"
  proof (rule map_idI)
    fix ch assume ch: "ch \<in> set cs"
    show "mapPort (\<lambda>p. portFold back (portFold pm p)) ch = ch"
    proof (cases ch)
      case (Plain c)
      then show ?thesis by simp
    next
      case (Ref h p)
      with ch ports have "p \<in> set (map fst pm)" by (auto simp: refPorts_def)
      then obtain v where kv: "(p, v) \<in> set pm" by auto
      have fun1: "\<forall>(a, b) \<in> set pm. a = p \<longrightarrow> b = v"
        using dk kv by (auto dest: eq_key_imp_eq_value)
      have "v \<in> set (map snd pm)" using kv by force
      with disj have v1: "v \<notin> fst ` set pm" by auto
      from portFold_hit[OF kv fun1 v1] have a: "portFold pm p = v" .
      have vk: "(v, p) \<in> set back" unfolding sw using kv by force
      have inj: "inj_on snd (set pm)" using dv by (simp add: distinct_map)
      have fun2: "\<forall>(a, b) \<in> set back. a = v \<longrightarrow> b = p"
      proof (clarify)
        fix b assume "(v, b) \<in> set back"
        then have bv: "(b, v) \<in> set pm" unfolding sw by auto
        have "(b, v) = (p, v)" by (rule inj_onD[OF inj _ bv kv]) simp
        then show "b = p" by simp
      qed
      have "p \<in> set (map fst pm)" using kv by force
      with disj have "p \<notin> set (map snd pm)" by auto
      then have p1: "p \<notin> fst ` set back" unfolding sw by force
      from portFold_hit[OF vk fun2 p1] have "portFold back v = p" .
      with a Ref show ?thesis by simp
    qed
  qed
  finally have "mapSubst back (mapSubst pm cs) = cs" .
  with f g cs show ?thesis by simp
qed

theorem replacePortsInEnvContent_roundtrip_witness:
  "portSet (set (map fst [(''54321'', ''60000''), (''54322'', ''60001'')])
            \<union> set (map snd [(''54321'', ''60000''), (''54322'', ''60001'')]))
   \<and> distinct (map fst [(''54321'', ''60000''), (''54322'', ''60001'')]
               @ map snd [(''54321'', ''60000''), (''54322'', ''60001'')])
   \<and> delimitedRefs (map fst [(''54321'', ''60000''), (''54322'', ''60001'')])
        ''URL=http://localhost:54321/rest
DB=postgresql://127.0.0.1:54322/db
N=54321''
   \<and> noRefs (map snd [(''54321'', ''60000''), (''54322'', ''60001'')])
        ''URL=http://localhost:54321/rest
DB=postgresql://127.0.0.1:54322/db
N=54321''
   \<and> replacePortsInEnvContent ''URL=http://localhost:54321/rest
DB=postgresql://127.0.0.1:54322/db
N=54321'' [(''54321'', ''60000''), (''54322'', ''60001'')]
      = ''URL=http://localhost:60000/rest
DB=postgresql://127.0.0.1:60001/db
N=54321''
   \<and> replacePortsInEnvContent
        (replacePortsInEnvContent ''URL=http://localhost:54321/rest
DB=postgresql://127.0.0.1:54322/db
N=54321'' [(''54321'', ''60000''), (''54322'', ''60001'')])
        [(''60001'', ''54322''), (''60000'', ''54321'')]
      = ''URL=http://localhost:54321/rest
DB=postgresql://127.0.0.1:54322/db
N=54321''"
proof -
  let ?pm = "[(''54321'', ''60000''), (''54322'', ''60001'')]"
  let ?inv = "[(''60001'', ''54322''), (''60000'', ''54321'')]"
  let ?c = "''URL=http://localhost:54321/rest
DB=postgresql://127.0.0.1:54322/db
N=54321''"
  have S: "portSet (set (map fst ?pm) \<union> set (map snd ?pm))"
    by (simp add: portSet_def isDigit_def)
  have d: "distinct (map fst ?pm @ map snd ?pm)" by simp
  have i: "set ?inv = (\<lambda>(k, v). (v, k)) ` set ?pm" by auto
  have del: "delimitedRefs (map fst ?pm) ?c" by code_simp
  have nor: "noRefs (map snd ?pm) ?c" by code_simp
  have run: "replacePortsInEnvContent ?c ?pm = ''URL=http://localhost:60000/rest
DB=postgresql://127.0.0.1:60001/db
N=54321''" by code_simp
  note rt = replacePortsInEnvContent_roundtrip[OF S d i del nor]
  show ?thesis
    apply (intro conjI)
         apply (rule S)
        apply (rule d)
       apply (rule del)
      apply (rule nor)
     apply (rule run)
    apply (rule rt)
    done
qed

end
